theory Spec2Isabelle
  imports Complex_Main "HOL-Library.Word" "HOL-Library.Log_Nat"
begin

unbundle bit_operations_syntax

section \<open>Common types (telemetry\_types.h, config.h)\<close>

type_synonym u8 = "8 word"
type_synonym u16 = "16 word"
type_synonym u32 = "32 word"

text \<open>\<^verbatim>\<open>StatusCode_t\<close>, in the order of the enum.\<close>

datatype StatusCode_t =
    STATUS_OK
  | STATUS_ERROR
  | STATUS_TIMEOUT
  | STATUS_BUSY
  | STATUS_INVALID_PARAM
  | STATUS_NO_DATA
  | STATUS_BUFFER_FULL
  | STATUS_NOT_INITIALIZED
  | STATUS_HARDWARE_ERROR

text \<open>
  \<^verbatim>\<open>TelemetryRecord_t\<close> is a packed struct. The buffer only ever copies records with
  \<^verbatim>\<open>memcpy\<close>, so each \<^verbatim>\<open>float\<close> field is kept as the 32-bit pattern that is stored in
  memory.
\<close>

record TelemetryRecord_t =
  timestamp :: u32
  speed :: u32
  battery_voltage :: u32
  latitude :: u32
  longitude :: u32
  altitude :: u32
  gps_satellites :: u8
  gps_fix_quality :: u8
  flags :: u8
  reserved :: u8
  crc16 :: u16

text \<open>The bytes of a field, least significant first (the target is little-endian).\<close>

definition bytes_u32 :: "u32 \<Rightarrow> u8 list" where
  "bytes_u32 w = [ucast w, ucast (drop_bit 8 w), ucast (drop_bit 16 w), ucast (drop_bit 24 w)]"

definition bytes_u16 :: "u16 \<Rightarrow> u8 list" where
  "bytes_u16 w = [ucast w, ucast (drop_bit 8 w)]"

text \<open>
  The memory image of a record, which is what \<^verbatim>\<open>memcpy\<close> copies and \<^verbatim>\<open>sizeof\<close> counts: the
  fields in declaration order, without padding (\<^verbatim>\<open>__attribute__((packed))\<close>).
\<close>

definition record_bytes :: "TelemetryRecord_t \<Rightarrow> u8 list" where
  "record_bytes r =
     bytes_u32 (timestamp r) @ bytes_u32 (speed r) @ bytes_u32 (battery_voltage r) @
     bytes_u32 (latitude r) @ bytes_u32 (longitude r) @ bytes_u32 (altitude r) @
     [gps_satellites r, gps_fix_quality r, flags r, reserved r] @ bytes_u16 (crc16 r)"

definition zero_record :: TelemetryRecord_t where
  "zero_record = \<lparr>timestamp = 0, speed = 0, battery_voltage = 0, latitude = 0, longitude = 0,
     altitude = 0, gps_satellites = 0, gps_fix_quality = 0, flags = 0, reserved = 0, crc16 = 0\<rparr>"

definition TELEMETRY_BUFFER_SIZE :: nat where
  "TELEMETRY_BUFFER_SIZE = 2048"

section \<open>Record buffer (circular\_buffer.c)\<close>

text \<open>
  \<^verbatim>\<open>CircularBuffer_t\<close>. The array \<^verbatim>\<open>records[TELEMETRY_BUFFER_SIZE]\<close> is a list; that it has
  \<^verbatim>\<open>TELEMETRY_BUFFER_SIZE\<close> elements is part of the invariant \<open>buf_inv\<close> below.
  A pointer argument is an \<open>option\<close>: \<open>None\<close> is \<^verbatim>\<open>NULL\<close>. The operations are modelled
  for one caller at a time; the atomic loads and stores are then plain reads and writes.
\<close>

record CircularBuffer_t =
  records :: "TelemetryRecord_t list"
  write_index :: u32
  read_index :: u32
  count :: u32
  overflow_count :: u32
  initialized :: bool

definition CircularBuffer_Init :: "CircularBuffer_t option \<Rightarrow> StatusCode_t \<times> CircularBuffer_t option" where
  "CircularBuffer_Init buffer =
     (case buffer of
        None \<Rightarrow> (STATUS_INVALID_PARAM, None)
      | Some b \<Rightarrow>
          (STATUS_OK,
           Some \<lparr>records = replicate TELEMETRY_BUFFER_SIZE zero_record,
                 write_index = 0, read_index = 0, count = 0, overflow_count = 0,
                 initialized = True\<rparr>))"

text \<open>The overflow branch of \<^verbatim>\<open>CircularBuffer_Push\<close>: count, advance the read index, make space.\<close>

definition discard_oldest :: "CircularBuffer_t \<Rightarrow> CircularBuffer_t" where
  "discard_oldest b =
     b\<lparr>overflow_count := overflow_count b + 1,
       read_index := (read_index b + 1) mod of_nat TELEMETRY_BUFFER_SIZE,
       count := count b - 1\<rparr>"

definition CircularBuffer_Push ::
  "CircularBuffer_t option \<Rightarrow> TelemetryRecord_t option \<Rightarrow> StatusCode_t \<times> CircularBuffer_t option" where
  "CircularBuffer_Push buffer record =
     (case (buffer, record) of
        (Some b, Some r) \<Rightarrow>
          if \<not> initialized b then (STATUS_NOT_INITIALIZED, buffer)
          else
            let b1 = (if count b \<ge> of_nat TELEMETRY_BUFFER_SIZE then discard_oldest b else b);
                write_idx = write_index b1;
                b2 = b1\<lparr>records := (records b1)[unat write_idx := r]\<rparr>;
                b3 = b2\<lparr>write_index := (write_idx + 1) mod of_nat TELEMETRY_BUFFER_SIZE\<rparr>
            in (STATUS_OK, Some (b3\<lparr>count := count b3 + 1\<rparr>))
      | _ \<Rightarrow> (STATUS_INVALID_PARAM, buffer))"

text \<open>
  \<^verbatim>\<open>CircularBuffer_Pop\<close>. The second argument says whether the out pointer \<^verbatim>\<open>record\<close> is
  non-null; the third component of the result is what was copied to it, if anything.
\<close>

definition CircularBuffer_Pop ::
  "CircularBuffer_t option \<Rightarrow> bool \<Rightarrow> StatusCode_t \<times> CircularBuffer_t option \<times> TelemetryRecord_t option" where
  "CircularBuffer_Pop buffer record_ok =
     (case buffer of
        None \<Rightarrow> (STATUS_INVALID_PARAM, buffer, None)
      | Some b \<Rightarrow>
          if \<not> record_ok then (STATUS_INVALID_PARAM, buffer, None)
          else if \<not> initialized b then (STATUS_NOT_INITIALIZED, buffer, None)
          else if count b = 0 then (STATUS_NO_DATA, buffer, None)
          else
            let read_idx = read_index b;
                out = records b ! unat read_idx;
                b1 = b\<lparr>read_index := (read_idx + 1) mod of_nat TELEMETRY_BUFFER_SIZE\<rparr>
            in (STATUS_OK, Some (b1\<lparr>count := count b1 - 1\<rparr>), Some out))"

definition CircularBuffer_Peek ::
  "CircularBuffer_t option \<Rightarrow> bool \<Rightarrow> u32 \<Rightarrow> StatusCode_t \<times> CircularBuffer_t option \<times> TelemetryRecord_t option" where
  "CircularBuffer_Peek buffer record_ok offset =
     (case buffer of
        None \<Rightarrow> (STATUS_INVALID_PARAM, buffer, None)
      | Some b \<Rightarrow>
          if \<not> record_ok then (STATUS_INVALID_PARAM, buffer, None)
          else if \<not> initialized b then (STATUS_NOT_INITIALIZED, buffer, None)
          else if offset \<ge> count b then (STATUS_NO_DATA, buffer, None)
          else
            let read_idx = read_index b;
                peek_idx = (read_idx + offset) mod of_nat TELEMETRY_BUFFER_SIZE
            in (STATUS_OK, buffer, Some (records b ! unat peek_idx)))"

definition CircularBuffer_Clear :: "CircularBuffer_t option \<Rightarrow> StatusCode_t \<times> CircularBuffer_t option" where
  "CircularBuffer_Clear buffer =
     (case buffer of
        None \<Rightarrow> (STATUS_INVALID_PARAM, buffer)
      | Some b \<Rightarrow>
          if \<not> initialized b then (STATUS_NOT_INITIALIZED, buffer)
          else (STATUS_OK, Some (b\<lparr>write_index := 0, read_index := 0, count := 0\<rparr>)))"

text \<open>
  The loop of \<^verbatim>\<open>CircularBuffer_PopBatch\<close>: \<open>i\<close> is the loop variable, \<open>cnt\<close> the local
  \<^verbatim>\<open>count\<close>, \<open>out\<close> the caller's array \<^verbatim>\<open>records\<close>.
\<close>

function PopBatch_loop ::
  "CircularBuffer_t \<Rightarrow> TelemetryRecord_t list \<Rightarrow> u32 \<Rightarrow> u32 \<Rightarrow> u32 \<Rightarrow>
   u32 \<times> CircularBuffer_t \<times> TelemetryRecord_t list" where
  "PopBatch_loop b out max_count i cnt =
     (if i < max_count then
        (case CircularBuffer_Pop (Some b) True of
           (STATUS_OK, Some b', Some r) \<Rightarrow>
             PopBatch_loop b' (out[unat i := r]) max_count (i + 1) (cnt + 1)
         | _ \<Rightarrow> (cnt, b, out))
      else (cnt, b, out))"
  by pat_completeness auto
termination
proof (relation "measure (\<lambda>(b, out, max_count, i, cnt). unat max_count - unat i)")
  show "wf (measure (\<lambda>(b, out, max_count, i, cnt). unat max_count - unat i))"
    by simp
next
  fix b :: CircularBuffer_t and out :: "TelemetryRecord_t list" and max_count i cnt :: u32
  assume lt: "i < max_count"
  then have "unat i < unat max_count"
    by (simp add: word_less_nat_alt)
  moreover have "unat max_count < 2 ^ 32"
    using unsigned_less [of max_count] by simp
  ultimately have "unat i + 1 < 2 ^ 32"
    by simp
  then have "unat (i + 1) = unat i + 1"
    by (simp add: unat_word_ariths)
  with \<open>unat i < unat max_count\<close> show "\<And>x xa y x2 ya x2a x2b.
     ((x2a, out[unat i := x2b], max_count, i + 1, cnt + 1), b, out, max_count, i, cnt)
       \<in> measure (\<lambda>(b, out, max_count, i, cnt). unat max_count - unat i)"
    by simp
qed

definition CircularBuffer_PopBatch ::
  "CircularBuffer_t option \<Rightarrow> TelemetryRecord_t list option \<Rightarrow> u32 \<Rightarrow>
   u32 \<times> CircularBuffer_t option \<times> TelemetryRecord_t list option" where
  "CircularBuffer_PopBatch buffer out max_count =
     (case (buffer, out) of
        (Some b, Some recs) \<Rightarrow>
          if max_count = 0 then (0, buffer, out)
          else if \<not> initialized b then (0, buffer, out)
          else (case PopBatch_loop b recs max_count 0 0 of
                  (n, b', recs') \<Rightarrow> (n, Some b', Some recs'))
      | _ \<Rightarrow> (0, buffer, out))"

declare PopBatch_loop.simps [simp del]

subsection \<open>Invariant and abstraction of the record buffer\<close>

text \<open>
  The states the operations keep the buffer in once \<^verbatim>\<open>CircularBuffer_Init\<close> has run: the
  indices are reduced modulo the capacity, the count is at most the capacity, and the write
  index is the read index advanced by the count.
\<close>

definition buf_inv :: "CircularBuffer_t \<Rightarrow> bool" where
  "buf_inv b \<longleftrightarrow>
     initialized b \<and> length (records b) = TELEMETRY_BUFFER_SIZE \<and>
     unat (count b) \<le> TELEMETRY_BUFFER_SIZE \<and>
     unat (read_index b) < TELEMETRY_BUFFER_SIZE \<and>
     unat (write_index b) = (unat (read_index b) + unat (count b)) mod TELEMETRY_BUFFER_SIZE"

text \<open>The stored records, oldest first.\<close>

definition contents :: "CircularBuffer_t \<Rightarrow> TelemetryRecord_t list" where
  "contents b =
     map (\<lambda>k. records b ! ((unat (read_index b) + k) mod TELEMETRY_BUFFER_SIZE))
       [0..<unat (count b)]"

text \<open>
  The operations of the buffer as values, to speak about sequences of calls. Each call is
  made with valid pointers; a batch is popped into an array of \<open>max_count\<close> records.
\<close>

datatype buffer_op =
    Op_Init
  | Op_Push TelemetryRecord_t
  | Op_Pop
  | Op_Peek u32
  | Op_Clear
  | Op_PopBatch u32

fun apply_op :: "buffer_op \<Rightarrow> CircularBuffer_t option \<Rightarrow> CircularBuffer_t option" where
  "apply_op Op_Init bp = snd (CircularBuffer_Init bp)"
| "apply_op (Op_Push r) bp = snd (CircularBuffer_Push bp (Some r))"
| "apply_op Op_Pop bp = fst (snd (CircularBuffer_Pop bp True))"
| "apply_op (Op_Peek offset) bp = fst (snd (CircularBuffer_Peek bp True offset))"
| "apply_op Op_Clear bp = snd (CircularBuffer_Clear bp)"
| "apply_op (Op_PopBatch max_count) bp =
     fst (snd (CircularBuffer_PopBatch bp (Some (replicate (unat max_count) zero_record)) max_count))"

fun run_ops :: "buffer_op list \<Rightarrow> CircularBuffer_t option \<Rightarrow> CircularBuffer_t option" where
  "run_ops [] bp = bp"
| "run_ops (op # ops) bp = run_ops ops (apply_op op bp)"

section \<open>CRC engine (main.c, \<^verbatim>\<open>Calculate_CRC16\<close>)\<close>

text \<open>
  The body of the inner loop over \<open>j\<close>: test bit 15, shift left in 16 bits, and fold in the
  polynomial when the bit was set.
\<close>

definition crc_shift :: "u16 \<Rightarrow> u16" where
  "crc_shift crc = (if crc AND 0x8000 \<noteq> 0 then push_bit 1 crc XOR 0x1021 else push_bit 1 crc)"

text \<open>The inner loop \<^verbatim>\<open>for (uint8_t j = 0; j < 8; j++)\<close>.\<close>

function crc_bits_loop :: "u8 \<Rightarrow> u16 \<Rightarrow> u16" where
  "crc_bits_loop j crc = (if j < 8 then crc_bits_loop (j + 1) (crc_shift crc) else crc)"
  by pat_completeness auto
termination
proof (relation "measure (\<lambda>(j, crc). 8 - unat j)")
  show "wf (measure (\<lambda>(j, crc). 8 - unat j))" by simp
next
  fix j :: u8 and crc :: u16
  assume "j < 8"
  then have "unat j < 8" by (simp add: word_less_nat_alt)
  then have "unat (j + 1) = unat j + 1" by (simp add: unat_word_ariths)
  with \<open>unat j < 8\<close> show "((j + 1, crc_shift crc), j, crc) \<in> measure (\<lambda>(j, crc). 8 - unat j)"
    by simp
qed

text \<open>The body of the outer loop: fold the byte into the high half, then eight shifts.\<close>

definition crc_update :: "u16 \<Rightarrow> u8 \<Rightarrow> u16" where
  "crc_update crc byte = crc_bits_loop 0 (crc XOR push_bit 8 (ucast byte))"

text \<open>
  The outer loop \<^verbatim>\<open>for (uint16_t i = 0; i < length; i++)\<close>; \<open>len\<close> is the C parameter
  \<^verbatim>\<open>length\<close>. Reading \<open>data ! unat i\<close> is meaningful only below \<open>length data\<close>; the theorems
  assume \<open>unat len \<le> length data\<close>, as the C caller must.
\<close>

function crc_bytes_loop :: "u8 list \<Rightarrow> u16 \<Rightarrow> u16 \<Rightarrow> u16 \<Rightarrow> u16" where
  "crc_bytes_loop data len i crc =
     (if i < len then crc_bytes_loop data len (i + 1) (crc_update crc (data ! unat i)) else crc)"
  by pat_completeness auto
termination
proof (relation "measure (\<lambda>(data, len, i, crc). unat len - unat i)")
  show "wf (measure (\<lambda>(data, len, i, crc). unat len - unat i))" by simp
next
  fix data :: "u8 list" and len i crc :: u16
  assume "i < len"
  then have lt: "unat i < unat len" by (simp add: word_less_nat_alt)
  moreover have "unat len < 2 ^ 16" using unsigned_less [of len] by simp
  ultimately have "unat i + 1 < 2 ^ 16" by simp
  then have "unat (i + 1) = unat i + 1" by (simp add: unat_word_ariths)
  with lt show "((data, len, i + 1, crc_update crc (data ! unat i)), data, len, i, crc) \<in> measure (\<lambda>(data, len, i, crc). unat len - unat i)"
    by simp
qed

declare crc_bits_loop.simps [simp del]

declare crc_bytes_loop.simps [simp del]

definition Calculate_CRC16 :: "u8 list \<Rightarrow> u16 \<Rightarrow> u16" where
  "Calculate_CRC16 data len = crc_bytes_loop data len 0 0xFFFF"

subsection \<open>The reference: CRC-16/CCITT-FALSE as the spec words it\<close>

text \<open>
  Not taken from the code. The catalogue definition of CRC-16/CCITT-FALSE: a 16-bit shift
  register with initial value 0xFFFF, fed the message bits most significant bit first; for
  each message bit the register is shifted left by one, and the polynomial 0x1021 is added
  when the bit shifted out differs from the message bit; nothing is reflected and there is
  no final XOR.
\<close>

definition crc_ref_bit :: "u16 \<Rightarrow> bool \<Rightarrow> u16" where
  "crc_ref_bit reg b = (if bit reg 15 \<noteq> b then push_bit 1 reg XOR 0x1021 else push_bit 1 reg)"

definition bits_msb_first :: "u8 \<Rightarrow> bool list" where
  "bits_msb_first x = map (bit x) [7, 6, 5, 4, 3, 2, 1, 0]"

definition crc16_ccitt_false_ref :: "u8 list \<Rightarrow> u16" where
  "crc16_ccitt_false_ref bytes = foldl crc_ref_bit 0xFFFF (concat (map bits_msb_first bytes))"

section \<open>Floating point\<close>

text \<open>
  The \<^verbatim>\<open>float\<close> and \<^verbatim>\<open>double\<close> values of the program are kept abstract: \<open>'f\<close> stands for
  \<^verbatim>\<open>float\<close>, \<open>'d\<close> for \<^verbatim>\<open>double\<close>, and the operations the code applies to them are the fields
  of a record that every function using floating point takes as its first argument. Nothing
  is assumed about them, so what is proved for every \<open>float_ops\<close> holds for IEEE 754
  arithmetic as for any other; two instances, exact arithmetic and binary floating point
  with rounding, are defined further down.
  \<open>fl_lit m e\<close> is the \<^verbatim>\<open>float\<close> literal with the decimal value \<open>m / 10 ^ e\<close>.
\<close>

record ('f, 'd) float_ops =
  fl_lit :: "int \<Rightarrow> nat \<Rightarrow> 'f"
  fl_add :: "'f \<Rightarrow> 'f \<Rightarrow> 'f"
  fl_sub :: "'f \<Rightarrow> 'f \<Rightarrow> 'f"
  fl_mul :: "'f \<Rightarrow> 'f \<Rightarrow> 'f"
  fl_div :: "'f \<Rightarrow> 'f \<Rightarrow> 'f"
  fl_neg :: "'f \<Rightarrow> 'f"
  fl_of_int :: "int \<Rightarrow> 'f"
  fl_of_u32 :: "u32 \<Rightarrow> 'f"
  fl_to_int :: "'f \<Rightarrow> int"
  dbl_atof :: "string \<Rightarrow> 'd"
  dbl_to_float :: "'d \<Rightarrow> 'f"
  dbl_mul :: "'d \<Rightarrow> 'd \<Rightarrow> 'd"
  dbl_of_int :: "int \<Rightarrow> 'd"
  dbl_to_u16 :: "'d \<Rightarrow> u16"

section \<open>NMEA parser (gps\_driver.c)\<close>

subsection \<open>C strings and the C library\<close>

text \<open>
  A \<^verbatim>\<open>const char *\<close> argument is the memory it points to; the C string is what stands
  before the first NUL.
\<close>

definition c_str :: "string \<Rightarrow> string" where
  "c_str mem = takeWhile (\<lambda>c. c \<noteq> CHR 0x00) mem"

definition byte_of :: "char \<Rightarrow> u8" where
  "byte_of c = of_nat (of_char c)"

text \<open>\<^verbatim>\<open>strchr\<close>: the index of the first occurrence, \<open>None\<close> for a null result.\<close>

fun strchr :: "string \<Rightarrow> char \<Rightarrow> nat option" where
  "strchr [] c = None"
| "strchr (x # xs) c = (if x = c then Some 0 else map_option Suc (strchr xs c))"

definition isspace :: "char \<Rightarrow> bool" where
  "isspace c = (c = CHR '' '' \<or> c = CHR 0x09 \<or> c = CHR 0x0A \<or> c = CHR 0x0B \<or> c = CHR 0x0C \<or> c = CHR 0x0D)"

definition isdigit :: "char \<Rightarrow> bool" where
  "isdigit c = (48 \<le> (of_char c :: nat) \<and> (of_char c :: nat) \<le> 57)"

definition hex_value :: "char \<Rightarrow> nat option" where
  "hex_value c =
     (let n = (of_char c :: nat) in
      if 48 \<le> n \<and> n \<le> 57 then Some (n - 48)
      else if 97 \<le> n \<and> n \<le> 102 then Some (n - 87)
      else if 65 \<le> n \<and> n \<le> 70 then Some (n - 55)
      else None)"

text \<open>
  \<^verbatim>\<open>sscanf(input, "%2hhx", &v)\<close> as ISO C defines it, returning the new value of \<open>v\<close> (\<open>old\<close>
  when nothing is assigned): white space is skipped, then at most two characters are read
  as an optionally signed hexadecimal number, an optional \<^verbatim>\<open>0x\<close> prefix counting towards
  the width; the result is converted to \<^verbatim>\<open>unsigned char\<close>. With no hexadecimal digit among
  the characters read the conversion fails and \<open>v\<close> keeps its value.
\<close>

definition sscanf_2hhx :: "string \<Rightarrow> u8 \<Rightarrow> u8" where
  "sscanf_2hhx input old =
     (case dropWhile isspace input of
        [] \<Rightarrow> old
      | c1 # rest \<Rightarrow>
          if c1 = CHR ''+'' \<or> c1 = CHR ''-'' then
            (case rest of
               [] \<Rightarrow> old
             | c2 # _ \<Rightarrow>
                 (case hex_value c2 of
                    None \<Rightarrow> old
                  | Some d \<Rightarrow> if c1 = CHR ''-'' then - of_nat d else of_nat d))
          else
            (case hex_value c1 of
               None \<Rightarrow> old
             | Some d1 \<Rightarrow>
                 (case rest of
                    [] \<Rightarrow> of_nat d1
                  | c2 # _ \<Rightarrow>
                      if d1 = 0 \<and> (c2 = CHR ''x'' \<or> c2 = CHR ''X'') then old
                      else
                        (case hex_value c2 of
                           None \<Rightarrow> of_nat d1
                         | Some d2 \<Rightarrow> of_nat (16 * d1 + d2)))))"

text \<open>
  \<^verbatim>\<open>atoi\<close>: white space, an optional sign, decimal digits. A value outside \<^verbatim>\<open>int\<close> (32 bits)
  is undefined behaviour in C: \<open>None\<close>.
\<close>

definition atoi :: "string \<Rightarrow> int option" where
  "atoi s =
     (let t = dropWhile isspace s;
          neg = (t \<noteq> [] \<and> hd t = CHR ''-'');
          u = (if t \<noteq> [] \<and> (hd t = CHR ''-'' \<or> hd t = CHR ''+'') then tl t else t);
          v = foldl (\<lambda>a c. 10 * a + (int (of_char c) - 48)) 0 (takeWhile isdigit u);
          r = (if neg then - v else v)
      in if - (2 ^ 31) \<le> r \<and> r < 2 ^ 31 then Some r else None)"

text \<open>
  The fields between commas, empty ones included; \<^verbatim>\<open>strtok\<close> with the delimiter \<^verbatim>\<open>","\<close>
  returns the non-empty ones in order.
\<close>

fun comma_fields :: "string \<Rightarrow> string list" where
  "comma_fields [] = [[]]"
| "comma_fields (c # cs) =
     (if c = CHR '','' then [] # comma_fields cs
      else (case comma_fields cs of [] \<Rightarrow> [[c]] | f # fs \<Rightarrow> (c # f) # fs))"

definition strtok_commas :: "string \<Rightarrow> string list" where
  "strtok_commas s = filter (\<lambda>t. t \<noteq> []) (comma_fields s)"

definition NMEA_BUFFER_SIZE :: nat where
  "NMEA_BUFFER_SIZE = 128"

definition NMEA_MAX_TOKENS :: nat where
  "NMEA_MAX_TOKENS = 20"

text \<open>
  The tokenizing loop of both sentence parsers: \<^verbatim>\<open>strncpy\<close> of at most
  \<^verbatim>\<open>NMEA_BUFFER_SIZE - 1\<close> characters into \<^verbatim>\<open>sentence_copy\<close>, then \<^verbatim>\<open>strtok\<close> until there
  is no token left or \<^verbatim>\<open>NMEA_MAX_TOKENS\<close> are stored. A sentence of
  \<^verbatim>\<open>NMEA_BUFFER_SIZE - 1\<close> characters or more leaves the copy without its terminating NUL,
  and \<^verbatim>\<open>strtok\<close> then reads an uninitialized byte: \<open>None\<close>.
\<close>

definition tokenize :: "string \<Rightarrow> string list option" where
  "tokenize s =
     (if length s \<ge> NMEA_BUFFER_SIZE - 1 then None
      else Some (take NMEA_MAX_TOKENS (strtok_commas s)))"

subsection \<open>GPS data and driver state\<close>

text \<open>
  \<^verbatim>\<open>GPSData_t\<close>; the fields that share a name with a field of \<^verbatim>\<open>TelemetryRecord_t\<close> carry
  the prefix \<open>gps_\<close>.
\<close>

record 'f GPSData_t =
  gps_latitude :: 'f
  gps_longitude :: 'f
  gps_altitude :: 'f
  satellites :: u8
  fix_quality :: u8
  gps_timestamp :: u32
  hdop :: u16
  valid :: bool

text \<open>
  The module's static variables. \<open>data_callback\<close> says whether a callback is registered;
  \<open>callback_calls\<close> lists the data it was invoked with, latest last.
\<close>

record 'f gps_driver =
  current_gps_data :: "'f GPSData_t"
  gps_initialized :: bool
  gps_has_fix :: bool
  last_fix_timestamp :: u32
  data_callback :: bool
  callback_calls :: "'f GPSData_t list"

subsection \<open>Checksum, coordinates, sentences\<close>

text \<open>The checksum loop: the XOR of the characters, each taken as a byte.\<close>

definition xor_bytes :: "string \<Rightarrow> u8" where
  "xor_bytes cs = foldl (\<lambda>calculated_checksum p. calculated_checksum XOR byte_of p) 0 cs"

definition GPS_ValidateChecksum :: "string option \<Rightarrow> bool" where
  "GPS_ValidateChecksum sentence =
     (case sentence of
        None \<Rightarrow> False
      | Some mem \<Rightarrow>
          let s = c_str mem in
          if s = [] \<or> hd s \<noteq> CHR ''$'' then False
          else
            (case strchr s (CHR ''*'') of
               None \<Rightarrow> False
             | Some checksum_ptr \<Rightarrow>
                 let calculated_checksum = xor_bytes (take (checksum_ptr - 1) (drop 1 s));
                     provided_checksum = sscanf_2hhx (drop (checksum_ptr + 1) s) 0
                 in calculated_checksum = provided_checksum))"

text \<open>
  \<^verbatim>\<open>GPS_ConvertCoordinate\<close>. The \<^verbatim>\<open>int\<close> product \<^verbatim>\<open>degrees * 100\<close> is taken in the integers;
  the cast \<^verbatim>\<open>(int)(coord / 100)\<close> is the operation \<open>fl_to_int\<close>.
\<close>

definition GPS_ConvertCoordinate ::
  "('f, 'd) float_ops \<Rightarrow> string option \<Rightarrow> string option \<Rightarrow> 'f" where
  "GPS_ConvertCoordinate fo coord_str direction =
     (case (coord_str, direction) of
        (Some cs, Some dir) \<Rightarrow>
          let coord = dbl_to_float fo (dbl_atof fo cs);
              degrees = fl_to_int fo (fl_div fo coord (fl_of_int fo 100));
              minutes = fl_sub fo coord (fl_of_int fo (degrees * 100));
              decimal_degrees = fl_add fo (fl_of_int fo degrees) (fl_div fo minutes (fl_lit fo 600 1))
          in if dir \<noteq> [] \<and> (hd dir = CHR ''S'' \<or> hd dir = CHR ''W'')
             then fl_neg fo decimal_degrees else decimal_degrees
      | _ \<Rightarrow> fl_lit fo 0 1)"

text \<open>
  The sentence parsers return the status, the caller's \<^verbatim>\<open>*gps_data\<close> and the driver state;
  \<open>None\<close> stands for undefined behaviour of the C code (see \<open>tokenize\<close> and \<open>atoi\<close>).
\<close>

definition GPS_ParseGPGGA ::
  "('f, 'd) float_ops \<Rightarrow> string \<Rightarrow> 'f GPSData_t \<Rightarrow> 'f gps_driver \<Rightarrow>
   (StatusCode_t \<times> 'f GPSData_t \<times> 'f gps_driver) option" where
  "GPS_ParseGPGGA fo sentence gps_data st =
     (case tokenize sentence of
        None \<Rightarrow> None
      | Some tokens \<Rightarrow>
          if length tokens < 10 then Some (STATUS_ERROR, gps_data, st)
          else
            (case atoi (tokens ! 6) of
               None \<Rightarrow> None
             | Some quality \<Rightarrow>
                 let g1 = gps_data\<lparr>fix_quality := of_int quality\<rparr> in
                 if fix_quality g1 = 0
                 then Some (STATUS_OK, g1\<lparr>valid := False\<rparr>, st\<lparr>gps_has_fix := False\<rparr>)
                 else
                   (case atoi (tokens ! 7) of
                      None \<Rightarrow> None
                    | Some sats \<Rightarrow>
                        let g2 = g1\<lparr>gps_latitude :=
                                   GPS_ConvertCoordinate fo (Some (tokens ! 2)) (Some (tokens ! 3))\<rparr>;
                            g3 = g2\<lparr>gps_longitude :=
                                   GPS_ConvertCoordinate fo (Some (tokens ! 4)) (Some (tokens ! 5))\<rparr>;
                            g4 = g3\<lparr>satellites := of_int sats\<rparr>;
                            g5 = g4\<lparr>gps_altitude := dbl_to_float fo (dbl_atof fo (tokens ! 9))\<rparr>;
                            g6 = g5\<lparr>hdop := dbl_to_u16 fo
                                   (dbl_mul fo (dbl_atof fo (tokens ! 8)) (dbl_of_int fo 100))\<rparr>;
                            g7 = g6\<lparr>valid := True\<rparr>;
                            st1 = st\<lparr>gps_has_fix := True, last_fix_timestamp := 0,
                                     current_gps_data := g7\<rparr>;
                            st2 = (if data_callback st1
                                   then st1\<lparr>callback_calls := callback_calls st1 @ [g7]\<rparr>
                                   else st1)
                        in Some (STATUS_OK, g7, st2))))"

definition GPS_ParseGPRMC ::
  "('f, 'd) float_ops \<Rightarrow> string \<Rightarrow> 'f GPSData_t \<Rightarrow> 'f gps_driver \<Rightarrow>
   (StatusCode_t \<times> 'f GPSData_t \<times> 'f gps_driver) option" where
  "GPS_ParseGPRMC fo sentence gps_data st =
     (case tokenize sentence of
        None \<Rightarrow> None
      | Some tokens \<Rightarrow>
          if length tokens < 10 then Some (STATUS_ERROR, gps_data, st)
          else if hd (tokens ! 2) \<noteq> CHR ''A''
          then Some (STATUS_OK, gps_data\<lparr>valid := False\<rparr>, st\<lparr>gps_has_fix := False\<rparr>)
          else
            (case atoi (tokens ! 1) of
               None \<Rightarrow> None
             | Some t \<Rightarrow>
                 let g1 = gps_data\<lparr>gps_latitude :=
                            GPS_ConvertCoordinate fo (Some (tokens ! 3)) (Some (tokens ! 4))\<rparr>;
                     g2 = g1\<lparr>gps_longitude :=
                            GPS_ConvertCoordinate fo (Some (tokens ! 5)) (Some (tokens ! 6))\<rparr>;
                     g3 = g2\<lparr>gps_timestamp := of_int t\<rparr>;
                     g4 = g3\<lparr>valid := True\<rparr>;
                     st1 = st\<lparr>gps_has_fix := True, last_fix_timestamp := 0,
                              current_gps_data := g4\<rparr>
                 in Some (STATUS_OK, g4, st1)))"

definition GPS_ParseNMEA ::
  "('f, 'd) float_ops \<Rightarrow> string option \<Rightarrow> 'f GPSData_t option \<Rightarrow> 'f gps_driver \<Rightarrow>
   (StatusCode_t \<times> 'f GPSData_t option \<times> 'f gps_driver) option" where
  "GPS_ParseNMEA fo sentence gps_data st =
     (case (sentence, gps_data) of
        (Some mem, Some gd) \<Rightarrow>
          if \<not> GPS_ValidateChecksum sentence then Some (STATUS_ERROR, gps_data, st)
          else if take 6 (c_str mem) = ''$GPGGA'' \<or> take 6 (c_str mem) = ''$GNGGA'' then
            map_option (\<lambda>(status, g, st'). (status, Some g, st')) (GPS_ParseGPGGA fo (c_str mem) gd st)
          else if take 6 (c_str mem) = ''$GPRMC'' \<or> take 6 (c_str mem) = ''$GNRMC'' then
            map_option (\<lambda>(status, g, st'). (status, Some g, st')) (GPS_ParseGPRMC fo (c_str mem) gd st)
          else Some (STATUS_ERROR, gps_data, st)
      | _ \<Rightarrow> Some (STATUS_INVALID_PARAM, gps_data, st))"

section \<open>Power state machine (power\_manager.c)\<close>

datatype PowerMode_t = POWER_MODE_ACTIVE | POWER_MODE_IDLE | POWER_MODE_DEEP_SLEEP

datatype Component_t =
    COMPONENT_GPS
  | COMPONENT_CAN
  | COMPONENT_ADC
  | COMPONENT_CELLULAR
  | COMPONENT_LORAWAN
  | COMPONENT_FLASH
  | COMPONENT_POWER
  | COMPONENT_WATCHDOG
  | COMPONENT_COUNT

record PeripheralState_t =
  can_enabled :: bool
  gps_enabled :: bool
  cellular_enabled :: bool
  lorawan_enabled :: bool
  flash_enabled :: bool

text \<open>
  The module's static variables. \<open>wake_callbacks\<close> holds, per wake source, the address of
  the registered callback if any. The drivers are collaborators: \<open>driver_calls\<close> lists the
  calls of \<^verbatim>\<open>CAN_SetPowerState\<close>, \<^verbatim>\<open>GPS_SetPowerState\<close> and \<^verbatim>\<open>ADC_SetPowerState\<close> made so
  far, latest last.
\<close>

record 'f power_manager =
  current_mode :: PowerMode_t
  previous_mode :: PowerMode_t
  power_initialized :: bool
  idle_timeout_ms :: u32
  last_activity_time :: u32
  mode_entry_time :: u32
  time_active_ms :: u32
  time_idle_ms :: u32
  time_sleep_ms :: u32
  cumulative_energy_mah :: 'f
  last_energy_update_time :: u32
  wake_callbacks :: "nat option list"
  peripheral_configs :: "PowerMode_t \<Rightarrow> PeripheralState_t"
  driver_calls :: "(Component_t \<times> bool) list"

definition IDLE_TIMEOUT_MS :: u32 where
  "IDLE_TIMEOUT_MS = 30000"

definition CURRENT_ACTIVE_MA :: "('f, 'd) float_ops \<Rightarrow> 'f" where
  "CURRENT_ACTIVE_MA fo = fl_lit fo 450 1"

definition CURRENT_IDLE_MA :: "('f, 'd) float_ops \<Rightarrow> 'f" where
  "CURRENT_IDLE_MA fo = fl_lit fo 80 1"

definition CURRENT_DEEP_SLEEP_UA :: "('f, 'd) float_ops \<Rightarrow> 'f" where
  "CURRENT_DEEP_SLEEP_UA fo = fl_lit fo 25 1"

text \<open>The static initializers of the module.\<close>

definition default_peripheral_configs :: "PowerMode_t \<Rightarrow> PeripheralState_t" where
  "default_peripheral_configs mode =
     (case mode of
        POWER_MODE_ACTIVE \<Rightarrow>
          \<lparr>can_enabled = True, gps_enabled = True, cellular_enabled = True,
           lorawan_enabled = True, flash_enabled = True\<rparr>
      | POWER_MODE_IDLE \<Rightarrow>
          \<lparr>can_enabled = True, gps_enabled = False, cellular_enabled = False,
           lorawan_enabled = False, flash_enabled = False\<rparr>
      | POWER_MODE_DEEP_SLEEP \<Rightarrow>
          \<lparr>can_enabled = False, gps_enabled = False, cellular_enabled = False,
           lorawan_enabled = False, flash_enabled = False\<rparr>)"

definition power_static_init :: "('f, 'd) float_ops \<Rightarrow> 'f power_manager" where
  "power_static_init fo =
     \<lparr>current_mode = POWER_MODE_ACTIVE, previous_mode = POWER_MODE_ACTIVE,
      power_initialized = False, idle_timeout_ms = IDLE_TIMEOUT_MS,
      last_activity_time = 0, mode_entry_time = 0,
      time_active_ms = 0, time_idle_ms = 0, time_sleep_ms = 0,
      cumulative_energy_mah = fl_lit fo 0 1, last_energy_update_time = 0,
      wake_callbacks = replicate 5 None,
      peripheral_configs = default_peripheral_configs,
      driver_calls = []\<rparr>"

text \<open>
  Every function of the module reads the clock as
  \<^verbatim>\<open>uint32_t current_time = 0; // TODO: Get current system time\<close>.
\<close>

definition Power_Init :: "('f, 'd) float_ops \<Rightarrow> 'f power_manager \<Rightarrow> StatusCode_t \<times> 'f power_manager" where
  "Power_Init fo s =
     (if power_initialized s then (STATUS_OK, s)
      else
        let s1 = s\<lparr>current_mode := POWER_MODE_ACTIVE, last_activity_time := 0\<rparr>;
            s2 = s1\<lparr>mode_entry_time := last_activity_time s1\<rparr>;
            s3 = s2\<lparr>last_energy_update_time := last_activity_time s2\<rparr>;
            s4 = s3\<lparr>time_active_ms := 0, time_idle_ms := 0, time_sleep_ms := 0,
                    cumulative_energy_mah := fl_lit fo 0 1\<rparr>
        in (STATUS_OK, s4\<lparr>power_initialized := True\<rparr>))"

definition Power_GetCurrentConsumption :: "('f, 'd) float_ops \<Rightarrow> 'f power_manager \<Rightarrow> 'f" where
  "Power_GetCurrentConsumption fo s =
     (case current_mode s of
        POWER_MODE_ACTIVE \<Rightarrow> CURRENT_ACTIVE_MA fo
      | POWER_MODE_IDLE \<Rightarrow> CURRENT_IDLE_MA fo
      | POWER_MODE_DEEP_SLEEP \<Rightarrow> fl_div fo (CURRENT_DEEP_SLEEP_UA fo) (fl_lit fo 10000 1))"

definition Power_UpdateEnergyConsumption :: "('f, 'd) float_ops \<Rightarrow> 'f power_manager \<Rightarrow> 'f power_manager" where
  "Power_UpdateEnergyConsumption fo s =
     (let current_time = 0;
          elapsed_ms = current_time - last_energy_update_time s
      in if elapsed_ms = 0 then s
         else
           let current_ma = Power_GetCurrentConsumption fo s;
               energy_mah = fl_div fo (fl_mul fo current_ma (fl_of_u32 fo elapsed_ms))
                              (fl_lit fo 36000000 1)
           in s\<lparr>cumulative_energy_mah := fl_add fo (cumulative_energy_mah s) energy_mah,
                last_energy_update_time := current_time\<rparr>)"

text \<open>
  \<^verbatim>\<open>Power_SetPeripheralState\<close>. \<open>drv\<close> gives the status a driver returns for a call; the
  drivers' own state is not part of this module.
\<close>

definition Power_SetPeripheralState ::
  "(Component_t \<Rightarrow> bool \<Rightarrow> StatusCode_t) \<Rightarrow> Component_t \<Rightarrow> bool \<Rightarrow> 'f power_manager \<Rightarrow>
   StatusCode_t \<times> 'f power_manager" where
  "Power_SetPeripheralState drv component enable s =
     (if \<not> power_initialized s then (STATUS_NOT_INITIALIZED, s)
      else if component = COMPONENT_CAN \<or> component = COMPONENT_GPS \<or> component = COMPONENT_ADC
      then (drv component enable, s\<lparr>driver_calls := driver_calls s @ [(component, enable)]\<rparr>)
      else (STATUS_INVALID_PARAM, s))"

definition Power_ApplyPeripheralStates ::
  "(Component_t \<Rightarrow> bool \<Rightarrow> StatusCode_t) \<Rightarrow> PeripheralState_t option \<Rightarrow> 'f power_manager \<Rightarrow>
   'f power_manager" where
  "Power_ApplyPeripheralStates drv states s =
     (case states of
        None \<Rightarrow> s
      | Some st \<Rightarrow>
          let s1 = snd (Power_SetPeripheralState drv COMPONENT_CAN (can_enabled st) s)
          in snd (Power_SetPeripheralState drv COMPONENT_GPS (gps_enabled st) s1))"

text \<open>\<^verbatim>\<open>Power_ConfigureWakeSources\<close>: every branch of its switch is empty.\<close>

definition Power_ConfigureWakeSources :: "PowerMode_t \<Rightarrow> 'f power_manager \<Rightarrow> 'f power_manager" where
  "Power_ConfigureWakeSources mode s =
     (case mode of
        POWER_MODE_IDLE \<Rightarrow> s
      | POWER_MODE_DEEP_SLEEP \<Rightarrow> s
      | _ \<Rightarrow> s)"

definition Power_SetMode ::
  "('f, 'd) float_ops \<Rightarrow> (Component_t \<Rightarrow> bool \<Rightarrow> StatusCode_t) \<Rightarrow> PowerMode_t \<Rightarrow>
   'f power_manager \<Rightarrow> StatusCode_t \<times> 'f power_manager" where
  "Power_SetMode fo drv mode s =
     (if \<not> power_initialized s then (STATUS_NOT_INITIALIZED, s)
      else if mode = current_mode s then (STATUS_OK, s)
      else
        let current_time = 0;
            time_in_mode = current_time - mode_entry_time s;
            s1 = (case current_mode s of
                    POWER_MODE_ACTIVE \<Rightarrow> s\<lparr>time_active_ms := time_active_ms s + time_in_mode\<rparr>
                  | POWER_MODE_IDLE \<Rightarrow> s\<lparr>time_idle_ms := time_idle_ms s + time_in_mode\<rparr>
                  | POWER_MODE_DEEP_SLEEP \<Rightarrow> s\<lparr>time_sleep_ms := time_sleep_ms s + time_in_mode\<rparr>);
            s2 = Power_UpdateEnergyConsumption fo s1;
            s3 = Power_ApplyPeripheralStates drv (Some (peripheral_configs s2 mode)) s2;
            s4 = Power_ConfigureWakeSources mode s3;
            s5 = s4\<lparr>previous_mode := current_mode s4\<rparr>;
            s6 = s5\<lparr>current_mode := mode\<rparr>
        in (STATUS_OK, s6\<lparr>mode_entry_time := current_time\<rparr>))"

definition Power_GetTimeInMode :: "'f power_manager \<Rightarrow> u32" where
  "Power_GetTimeInMode s = (let current_time = 0 in current_time - mode_entry_time s)"

text \<open>
  \<^verbatim>\<open>Power_GetStatistics\<close>; \<open>ptrs_ok\<close> says that none of the three out pointers is null, and
  the result carries what is stored through them.
\<close>

definition Power_GetStatistics ::
  "bool \<Rightarrow> 'f power_manager \<Rightarrow> StatusCode_t \<times> (u32 \<times> u32 \<times> u32) option" where
  "Power_GetStatistics ptrs_ok s =
     (if \<not> ptrs_ok then (STATUS_INVALID_PARAM, None)
      else
        let current_time_in_mode = Power_GetTimeInMode s;
            a = time_active_ms s; i = time_idle_ms s; d = time_sleep_ms s
        in (STATUS_OK,
            Some (case current_mode s of
                    POWER_MODE_ACTIVE \<Rightarrow> (a + current_time_in_mode, i, d)
                  | POWER_MODE_IDLE \<Rightarrow> (a, i + current_time_in_mode, d)
                  | POWER_MODE_DEEP_SLEEP \<Rightarrow> (a, i, d + current_time_in_mode))))"

text \<open>\<^verbatim>\<open>Power_GetEnergyConsumption\<close> settles the energy first, then reads the counter.\<close>

definition Power_GetEnergyConsumption ::
  "('f, 'd) float_ops \<Rightarrow> 'f power_manager \<Rightarrow> 'f \<times> 'f power_manager" where
  "Power_GetEnergyConsumption fo s =
     (let s1 = Power_UpdateEnergyConsumption fo s in (cumulative_energy_mah s1, s1))"

text \<open>A sequence of \<^verbatim>\<open>Power_SetMode\<close> calls, for statements about every such sequence.\<close>

fun set_modes ::
  "('f, 'd) float_ops \<Rightarrow> (Component_t \<Rightarrow> bool \<Rightarrow> StatusCode_t) \<Rightarrow> PowerMode_t list \<Rightarrow>
   'f power_manager \<Rightarrow> 'f power_manager" where
  "set_modes fo drv [] s = s"
| "set_modes fo drv (m # ms) s = set_modes fo drv ms (snd (Power_SetMode fo drv m s))"

text \<open>
  What the placeholder clock leaves true of every state reached from \<^verbatim>\<open>Power_Init\<close>: both
  timestamps are 0 and nothing has been accumulated.
\<close>

definition clock_never_read :: "('f, 'd) float_ops \<Rightarrow> 'f power_manager \<Rightarrow> bool" where
  "clock_never_read fo s \<longleftrightarrow>
     power_initialized s \<and> mode_entry_time s = 0 \<and> last_energy_update_time s = 0 \<and>
     time_active_ms s = 0 \<and> time_idle_ms s = 0 \<and> time_sleep_ms s = 0 \<and>
     cumulative_energy_mah s = fl_lit fo 0 1"


section \<open>Exact arithmetic, for concrete examples\<close>

text \<open>
  Not part of the program: the floating point operations read as exact rational arithmetic
  without rounding, so that the examples below are closed terms. \<open>decimal_value\<close> reads an
  optional sign, digits, and an optional point followed by digits: the number that a
  decimal string denotes. The theorems about the parser, the buffer and the power manager
  hold for every \<open>float_ops\<close> and do not depend on this choice.
\<close>

definition digits_value :: "string \<Rightarrow> int" where
  "digits_value ds = foldl (\<lambda>a c. 10 * a + (int (of_char c) - 48)) 0 ds"

definition decimal_value :: "string \<Rightarrow> rat" where
  "decimal_value s =
     (let t = dropWhile isspace s;
          neg = (t \<noteq> [] \<and> hd t = CHR ''-'');
          u = (if t \<noteq> [] \<and> (hd t = CHR ''-'' \<or> hd t = CHR ''+'') then tl t else t);
          ip = takeWhile isdigit u;
          r = dropWhile isdigit u;
          fp = (if r \<noteq> [] \<and> hd r = CHR ''.'' then takeWhile isdigit (tl r) else []);
          v = of_int (digits_value ip) + of_int (digits_value fp) / 10 ^ length fp
      in if neg then - v else v)"

definition exact_ops :: "(rat, rat) float_ops" where
  "exact_ops =
     \<lparr>fl_lit = (\<lambda>m e. of_int m / 10 ^ e),
      fl_add = (\<lambda>x y. x + y), fl_sub = (\<lambda>x y. x - y),
      fl_mul = (\<lambda>x y. x * y), fl_div = (\<lambda>x y. x / y),
      fl_neg = (\<lambda>x. - x),
      fl_of_int = of_int, fl_of_u32 = (\<lambda>w. of_nat (unat w)),
      fl_to_int = (\<lambda>x. if 0 \<le> x then \<lfloor>x\<rfloor> else \<lceil>x\<rceil>),
      dbl_atof = decimal_value, dbl_to_float = (\<lambda>x. x),
      dbl_mul = (\<lambda>x y. x * y), dbl_of_int = of_int,
      dbl_to_u16 = (\<lambda>x. of_int (if 0 \<le> x then \<lfloor>x\<rfloor> else \<lceil>x\<rceil>))\<rparr>"

definition all_drivers_ok :: "Component_t \<Rightarrow> bool \<Rightarrow> StatusCode_t" where
  "all_drivers_ok c e = STATUS_OK"

definition no_gps_data :: "rat GPSData_t" where
  "no_gps_data =
     \<lparr>gps_latitude = 0, gps_longitude = 0, gps_altitude = 0, satellites = 0,
      fix_quality = 0, gps_timestamp = 0, hdop = 0, valid = False\<rparr>"

definition gps_after_init :: "rat gps_driver" where
  "gps_after_init =
     \<lparr>current_gps_data = no_gps_data, gps_initialized = True, gps_has_fix = False,
      last_fix_timestamp = 0, data_callback = False, callback_calls = []\<rparr>"

section \<open>Binary floating point, round to nearest\<close>

text \<open>
  Not part of the program either: the arithmetic of the target, \<^verbatim>\<open>float\<close> as IEEE 754
  binary32 (24 significant bits) and \<^verbatim>\<open>double\<close> as binary64 (53 bits), on the rationals.
  \<open>round_to p x\<close> is the number with \<open>p\<close> significant bits nearest to \<open>x\<close>, a tie going to
  the even significand. The exponent is not bounded: there is no overflow and there are no
  subnormal numbers, so the operations are those of IEEE 754 as long as no result other
  than 0 has a magnitude below \<open>2 powi (-126)\<close> or above \<open>2 powi 127\<close>; infinities, NaN and
  division by zero are not modelled. \<^verbatim>\<open>atof\<close> is the correctly rounded value of the decimal
  string, and every operation on \<^verbatim>\<open>float\<close> operands is rounded to \<^verbatim>\<open>float\<close>.
\<close>

text \<open>\<open>expo a\<close>, for \<open>0 < a\<close>, is the exponent \<open>e\<close> with \<open>2 powi e \<le> a < 2 powi (e + 1)\<close>.\<close>

definition expo :: "rat \<Rightarrow> int" where
  "expo a = (if 1 \<le> a then bitlen \<lfloor>a\<rfloor> - 1 else - bitlen (\<lceil>1 / a\<rceil> - 1))"

definition round_even :: "rat \<Rightarrow> int" where
  "round_even x =
     (let f = \<lfloor>x\<rfloor>; d = x - of_int f
      in if d < 1 / 2 then f else if 1 / 2 < d then f + 1 else if even f then f else f + 1)"

definition round_to :: "nat \<Rightarrow> rat \<Rightarrow> rat" where
  "round_to p x =
     (if x = 0 then 0
      else let u = 2 powi (expo \<bar>x\<bar> - (int p - 1)) in of_int (round_even (x / u)) * u)"

definition ieee_ops :: "(rat, rat) float_ops" where
  "ieee_ops =
     \<lparr>fl_lit = (\<lambda>m e. round_to 24 (of_int m / 10 ^ e)),
      fl_add = (\<lambda>x y. round_to 24 (x + y)), fl_sub = (\<lambda>x y. round_to 24 (x - y)),
      fl_mul = (\<lambda>x y. round_to 24 (x * y)), fl_div = (\<lambda>x y. round_to 24 (x / y)),
      fl_neg = (\<lambda>x. - x),
      fl_of_int = (\<lambda>k. round_to 24 (of_int k)), fl_of_u32 = (\<lambda>w. round_to 24 (of_nat (unat w))),
      fl_to_int = (\<lambda>x. if 0 \<le> x then \<lfloor>x\<rfloor> else \<lceil>x\<rceil>),
      dbl_atof = (\<lambda>s. round_to 53 (decimal_value s)), dbl_to_float = round_to 24,
      dbl_mul = (\<lambda>x y. round_to 53 (x * y)), dbl_of_int = (\<lambda>k. round_to 53 (of_int k)),
      dbl_to_u16 = (\<lambda>x. of_int (if 0 \<le> x then \<lfloor>x\<rfloor> else \<lceil>x\<rceil>))\<rparr>"

subsection \<open>The coordinate format and the formula of the specification\<close>

text \<open>
  A coordinate string as NMEA 0183 writes it: four digits (\<^verbatim>\<open>DDMM\<close>, latitude) or five
  (\<^verbatim>\<open>DDDMM\<close>, longitude), a point, and one or more digits of the fraction of a minute.
\<close>

definition coord_form :: "string \<Rightarrow> bool" where
  "coord_form s =
     (let ip = takeWhile isdigit s; r = dropWhile isdigit s
      in (length ip = 4 \<or> length ip = 5) \<and> r \<noteq> [] \<and> hd r = CHR ''.'' \<and>
         tl r \<noteq> [] \<and> list_all isdigit (tl r))"

text \<open>
  The conversion as the specification words it, on the value \<open>v\<close> of the string:
  degrees \<open>\<lfloor>v / 100\<rfloor>\<close>, minutes the remainder, decimal degrees their sum with the minutes
  divided by 60.
\<close>

definition minutes_ref :: "rat \<Rightarrow> rat" where
  "minutes_ref v = v - 100 * of_int \<lfloor>v / 100\<rfloor>"

definition decimal_degrees_ref :: "rat \<Rightarrow> rat" where
  "decimal_degrees_ref v = of_int \<lfloor>v / 100\<rfloor> + (v - 100 * of_int \<lfloor>v / 100\<rfloor>) / 60"
section \<open>Proofs: record buffer\<close>

subsection \<open>Index arithmetic\<close>

lemma mod_add_inj_le:
  fixes a i j n :: nat
  assumes eq: "(a + i) mod n = (a + j) mod n" and ij: "i \<le> j" and j: "j < n"
  shows "i = j"
proof -
  have le: "a + i \<le> a + j" using ij by simp
  have "n dvd (a + j) - (a + i)"
    using mod_eq_dvd_iff_nat [OF le, of n] eq by simp
  then have "n dvd j - i" by simp
  moreover have "j - i < n" using j by simp
  ultimately have "j - i = 0" by (meson dvd_imp_le not_le zero_less_iff_neq_zero)
  then show ?thesis using ij by simp
qed
lemma mod_add_inj:
  fixes a i j n :: nat
  assumes eq: "(a + i) mod n = (a + j) mod n" and i: "i < n" and j: "j < n"
  shows "i = j"
proof (cases "i \<le> j")
  case True
  from eq True j show ?thesis by (rule mod_add_inj_le)
next
  case False
  then have "j \<le> i" by simp
  with eq [symmetric] have "j = i" using i by (rule mod_add_inj_le)
  then show ?thesis by simp
qed

lemma mod_succ_add: "(((a::nat) + 1) mod n + k) mod n = (a + (k + 1)) mod n"
  by (simp add: mod_simps ac_simps)
lemma mod_succ_pred: "0 < (c::nat) \<Longrightarrow> ((a + 1) mod n + (c - 1)) mod n = (a + c) mod n"
proof -
  assume "0 < c"
  then obtain d where c: "c = Suc d" by (cases c) auto
  show ?thesis unfolding c by (simp add: mod_simps)
qed
lemma mod_wrap: "(a::nat) < n \<Longrightarrow> ((a + 1) mod n + (n - 1)) mod n = a"
proof -
  assume a: "a < n"
  then have "0 < n" by simp
  then have "((a + 1) mod n + (n - 1)) mod n = (a + n) mod n" by (rule mod_succ_pred)
  then show ?thesis using a by simp
qed

lemma unat_succ_mod: "unat ((x + 1) mod 2048 :: u32) = (unat x + 1) mod 2048"
proof -
  have "unat ((x + 1) mod 2048 :: u32) = ((unat x + 1) mod 2 ^ 32) mod 2048"
    by (simp add: unat_mod_distrib unat_word_ariths)
  also have "\<dots> = (unat x + 1) mod 2048"
    by (simp add: mod_mod_cancel)
  finally show ?thesis .
qed

lemma unat_add_mod: "unat ((x + y) mod 2048 :: u32) = (unat x + unat y) mod 2048"
proof -
  have "unat ((x + y) mod 2048 :: u32) = ((unat x + unat y) mod 2 ^ 32) mod 2048"
    by (simp add: unat_mod_distrib unat_word_ariths)
  also have "\<dots> = (unat x + unat y) mod 2048"
    by (simp add: mod_mod_cancel)
  finally show ?thesis .
qed

lemma unat_succ_small: "unat (c::u32) < 2048 \<Longrightarrow> unat (c + 1) = unat c + 1"
  by (simp add: unat_word_ariths)

lemma length_contents: "length (contents b) = unat (count b)"
  by (simp add: contents_def)

lemma Init_inv:
  "CircularBuffer_Init (Some b0) = (STATUS_OK, Some b) \<Longrightarrow> buf_inv b \<and> contents b = [] \<and> overflow_count b = 0"
  by (auto simp: CircularBuffer_Init_def buf_inv_def contents_def TELEMETRY_BUFFER_SIZE_def)

lemma Push_not_full:
  assumes inv: "buf_inv b" and nf: "unat (count b) < TELEMETRY_BUFFER_SIZE"
  shows "\<exists>b'. CircularBuffer_Push (Some b) (Some r) = (STATUS_OK, Some b') \<and> buf_inv b' \<and>
           unat (count b') = unat (count b) + 1 \<and> overflow_count b' = overflow_count b \<and>
           read_index b' = read_index b \<and>
           contents b' = contents b @ [r]"
proof -
  let ?N = "2048::nat"
  let ?rd = "unat (read_index b)" and ?c = "unat (count b)"
  define b' where "b' = b\<lparr>records := (records b)[unat (write_index b) := r],
      write_index := (write_index b + 1) mod 2048, count := count b + 1\<rparr>"
  from inv nf have c: "?c < ?N" and rd: "?rd < ?N" and len: "length (records b) = ?N"
    and w: "unat (write_index b) = (?rd + ?c) mod ?N" and ini: "initialized b"
    by (simp_all add: buf_inv_def TELEMETRY_BUFFER_SIZE_def)
  from c have nge: "\<not> (2048 \<le> count b)" by (simp add: word_le_nat_alt)
  have push: "CircularBuffer_Push (Some b) (Some r) = (STATUS_OK, Some b')"
    using ini nge by (simp add: CircularBuffer_Push_def TELEMETRY_BUFFER_SIZE_def b'_def Let_def)
  have c': "unat (count b') = ?c + 1"
    using c by (simp add: b'_def unat_succ_small)
  have w': "unat (write_index b') = (?rd + (?c + 1)) mod ?N"
    using w by (simp add: b'_def unat_succ_mod mod_Suc_eq)
  have inv': "buf_inv b'"
    using c c' w' rd len ini by (simp add: buf_inv_def TELEMETRY_BUFFER_SIZE_def) (simp add: b'_def)
  have old: "records b' ! ((?rd + k) mod ?N) = records b ! ((?rd + k) mod ?N)" if "k < ?c" for k
  proof -
    have "(?rd + ?c) mod ?N \<noteq> (?rd + k) mod ?N"
      using mod_add_inj [of ?rd ?c ?N k] that c by auto
    then show ?thesis by (simp add: b'_def w)
  qed
  have new: "records b' ! ((?rd + ?c) mod ?N) = r"
    using len by (simp add: b'_def w)
  have "contents b' = map (\<lambda>k. records b' ! ((?rd + k) mod ?N)) [0..<?c] @ [records b' ! ((?rd + ?c) mod ?N)]"
    by (simp add: contents_def c' TELEMETRY_BUFFER_SIZE_def) (simp add: b'_def)
  also have "map (\<lambda>k. records b' ! ((?rd + k) mod ?N)) [0..<?c] = contents b"
    by (simp add: contents_def TELEMETRY_BUFFER_SIZE_def old)
  finally have "contents b' = contents b @ [r]" by (simp add: new)
  with push inv' c' show ?thesis by (auto simp: b'_def)
qed


lemma Push_full:
  assumes inv: "buf_inv b" and full: "unat (count b) = TELEMETRY_BUFFER_SIZE"
  shows "\<exists>b'. CircularBuffer_Push (Some b) (Some r) = (STATUS_OK, Some b') \<and> buf_inv b' \<and>
           count b' = count b \<and> overflow_count b' = overflow_count b + 1 \<and>
           unat (read_index b') = (unat (read_index b) + 1) mod TELEMETRY_BUFFER_SIZE \<and>
           contents b' = tl (contents b) @ [r]"
proof -
  let ?N = "2048::nat"
  let ?rd = "unat (read_index b)"
  define b' where "b' = b\<lparr>overflow_count := overflow_count b + 1,
      read_index := (read_index b + 1) mod 2048,
      records := (records b)[unat (write_index b) := r],
      write_index := (write_index b + 1) mod 2048\<rparr>"
  from inv full have c: "unat (count b) = ?N" and rd: "?rd < ?N" and len: "length (records b) = ?N"
    and w: "unat (write_index b) = ?rd" and ini: "initialized b"
    by (simp_all add: buf_inv_def TELEMETRY_BUFFER_SIZE_def)
  from c have ge: "2048 \<le> count b" by (simp add: word_le_nat_alt)
  have cnt: "count b - 1 + 1 = count b" by simp
  have push: "CircularBuffer_Push (Some b) (Some r) = (STATUS_OK, Some b')"
    using ini ge
    by (simp add: CircularBuffer_Push_def discard_oldest_def TELEMETRY_BUFFER_SIZE_def b'_def Let_def)
  have c': "unat (count b') = ?N" using c by (simp add: b'_def)
  have rd': "unat (read_index b') = (?rd + 1) mod ?N"
    by (simp add: b'_def unat_succ_mod)
  have w': "unat (write_index b') = (?rd + 1) mod ?N"
    using w by (simp add: b'_def unat_succ_mod)
  have inv': "buf_inv b'"
    unfolding buf_inv_def TELEMETRY_BUFFER_SIZE_def c' rd' w'
    using ini len by (simp add: b'_def)
  have recs: "records b' = (records b)[?rd := r]"
    by (simp add: b'_def w)
  have "contents b' = tl (contents b) @ [r]"
  proof (rule nth_equalityI)
    show "length (contents b') = length (tl (contents b) @ [r])"
      by (simp add: length_contents c c')
  next
    fix k assume "k < length (contents b')"
    then have k: "k < ?N" by (simp add: length_contents c')
    have lhs: "contents b' ! k = (records b)[?rd := r] ! (((?rd + 1) mod ?N + k) mod ?N)"
      using k by (simp add: contents_def c' rd' recs TELEMETRY_BUFFER_SIZE_def)
    show "contents b' ! k = (tl (contents b) @ [r]) ! k"
    proof (cases "k = ?N - 1")
      case True
      then have "((?rd + 1) mod ?N + k) mod ?N = ?rd" using mod_wrap [OF rd] by simp
      then have "contents b' ! k = r" using lhs rd len by simp
      moreover have "(tl (contents b) @ [r]) ! k = r"
        using True by (simp add: nth_append length_contents c)
      ultimately show ?thesis by simp
    next
      case False
      with k have k1: "k + 1 < ?N" by simp
      have eq: "((?rd + 1) mod ?N + k) mod ?N = (?rd + (k + 1)) mod ?N" by (rule mod_succ_add)
      have "(?rd + (k + 1)) mod ?N \<noteq> (?rd + 0) mod ?N"
        using mod_add_inj [of ?rd "k + 1" ?N 0] k1 by auto
      then have ne: "((?rd + 1) mod ?N + k) mod ?N \<noteq> ?rd" using rd eq by simp
      have "contents b' ! k = records b ! ((?rd + (k + 1)) mod ?N)"
        using lhs ne eq by simp
      moreover have "(tl (contents b) @ [r]) ! k = contents b ! (k + 1)"
        using k1 by (simp add: nth_append length_contents c nth_tl)
      moreover have "contents b ! (k + 1) = records b ! ((?rd + (k + 1)) mod ?N)"
        using k1 by (simp add: contents_def c TELEMETRY_BUFFER_SIZE_def del: upt_Suc)
      ultimately show ?thesis by simp
    qed
  qed
  with push inv' rd' show ?thesis
    by (auto simp: b'_def TELEMETRY_BUFFER_SIZE_def)
qed

lemma Pop_nonempty:
  assumes inv: "buf_inv b" and ne: "count b \<noteq> 0"
  shows "\<exists>b'. CircularBuffer_Pop (Some b) True = (STATUS_OK, Some b', Some (hd (contents b))) \<and>
           buf_inv b' \<and> unat (count b') = unat (count b) - 1 \<and>
           overflow_count b' = overflow_count b \<and> contents b' = tl (contents b)"
proof -
  let ?N = "2048::nat"
  let ?rd = "unat (read_index b)" and ?c = "unat (count b)"
  define b' where "b' = b\<lparr>read_index := (read_index b + 1) mod 2048, count := count b - 1\<rparr>"
  from inv have c: "?c \<le> ?N" and rd: "?rd < ?N" and len: "length (records b) = ?N"
    and w: "unat (write_index b) = (?rd + ?c) mod ?N" and ini: "initialized b"
    by (simp_all add: buf_inv_def TELEMETRY_BUFFER_SIZE_def)
  from ne have c0: "0 < ?c" by (simp add: unat_gt_0)
  have hd: "hd (contents b) = records b ! ?rd"
    using c0 rd by (simp add: contents_def hd_map TELEMETRY_BUFFER_SIZE_def upt_conv_Cons del: upt_Suc)
  have pop: "CircularBuffer_Pop (Some b) True = (STATUS_OK, Some b', Some (hd (contents b)))"
    using ini ne by (simp add: CircularBuffer_Pop_def TELEMETRY_BUFFER_SIZE_def b'_def Let_def hd)
  have c': "unat (count b') = ?c - 1"
    using ne by (simp add: b'_def unat_minus_one)
  have rd': "unat (read_index b') = (?rd + 1) mod ?N"
    by (simp add: b'_def unat_succ_mod)
  have w': "unat (write_index b') = ((?rd + 1) mod ?N + (?c - 1)) mod ?N"
  proof -
    have "((?rd + 1) mod ?N + (?c - 1)) mod ?N = (?rd + ?c) mod ?N" using c0 by (rule mod_succ_pred)
    then show ?thesis using w by (simp add: b'_def)
  qed
  have inv': "buf_inv b'"
    unfolding buf_inv_def TELEMETRY_BUFFER_SIZE_def c' rd' w'
    using ini len c by (simp add: b'_def)
  have "contents b' = tl (contents b)"
  proof (rule nth_equalityI)
    show "length (contents b') = length (tl (contents b))"
      by (simp add: length_contents c')
  next
    fix k assume "k < length (contents b')"
    then have k: "k < ?c - 1" by (simp add: length_contents c')
    have eq: "((?rd + 1) mod ?N + k) mod ?N = (?rd + (k + 1)) mod ?N" by (rule mod_succ_add)
    have "contents b' ! k = records b ! (((?rd + 1) mod ?N + k) mod ?N)"
      using k by (simp add: contents_def c' rd' TELEMETRY_BUFFER_SIZE_def) (simp add: b'_def)
    moreover have "tl (contents b) ! k = contents b ! (k + 1)"
      using k by (simp add: nth_tl length_contents)
    moreover have "contents b ! (k + 1) = records b ! ((?rd + (k + 1)) mod ?N)"
      using k by (simp add: contents_def TELEMETRY_BUFFER_SIZE_def del: upt_Suc)
    ultimately show "contents b' ! k = tl (contents b) ! k" using eq by simp
  qed
  with pop inv' c' show ?thesis by (auto simp: b'_def)
qed

lemma Pop_empty:
  "count b = 0 \<Longrightarrow> initialized b \<Longrightarrow> CircularBuffer_Pop (Some b) True = (STATUS_NO_DATA, Some b, None)"
  by (simp add: CircularBuffer_Pop_def)


lemma unat_succ_less: "i < (m::u32) \<Longrightarrow> unat (i + 1) = unat i + 1"
proof -
  assume "i < m"
  then have "unat i < unat m" by (simp add: word_less_nat_alt)
  moreover have "unat m < 2 ^ 32" using unsigned_less [of m] by simp
  ultimately have "unat i + 1 < 2 ^ 32" by simp
  then show ?thesis by (simp add: unat_word_ariths)
qed

lemma hd_contents_nth: "0 < unat (count b) \<Longrightarrow> hd (contents b) = contents b ! 0"
  by (simp add: hd_conv_nth length_contents [symmetric] del: length_contents)

lemma PopBatch_loop_spec:
  assumes "buf_inv b"
  shows "\<exists>b' out'.
     PopBatch_loop b out max_count i cnt =
       (cnt + of_nat (min (unat max_count - unat i) (unat (count b))), b', out') \<and>
     buf_inv b' \<and>
     contents b' = drop (min (unat max_count - unat i) (unat (count b))) (contents b) \<and>
     overflow_count b' = overflow_count b \<and>
     length out' = length out \<and>
     (\<forall>j < length out. out' ! j =
        (if unat i \<le> j \<and> j < unat i + min (unat max_count - unat i) (unat (count b))
         then contents b ! (j - unat i) else out ! j))"
  using assms
proof (induction b out max_count i cnt rule: PopBatch_loop.induct)
  case (1 b out max_count i cnt)
  let ?k = "min (unat max_count - unat i) (unat (count b))"
  show ?case
  proof (cases "i < max_count")
    case False
    then have "unat max_count - unat i = 0" by (simp add: word_less_nat_alt)
    then have k: "?k = 0" by simp
    have "PopBatch_loop b out max_count i cnt = (cnt, b, out)"
      using False by (subst PopBatch_loop.simps) simp
    then show ?thesis unfolding k using "1.prems" by auto
  next
    case lt: True
    then have lt': "unat i < unat max_count" by (simp add: word_less_nat_alt)
    have i1: "unat (i + 1) = unat i + 1" using lt by (rule unat_succ_less)
    show ?thesis
    proof (cases "count b = 0")
      case True
      then have k: "?k = 0" by simp
      have "initialized b" using "1.prems" by (simp add: buf_inv_def)
      then have "CircularBuffer_Pop (Some b) True = (STATUS_NO_DATA, Some b, None)"
        using True by (simp add: Pop_empty)
      then have "PopBatch_loop b out max_count i cnt = (cnt, b, out)"
        using lt by (subst PopBatch_loop.simps) simp
      then show ?thesis unfolding k using "1.prems" by auto
    next
      case False
      then have c0: "0 < unat (count b)" by (simp add: unat_gt_0)
      from Pop_nonempty [OF "1.prems" False] obtain b1 where
        pop: "CircularBuffer_Pop (Some b) True = (STATUS_OK, Some b1, Some (hd (contents b)))"
        and inv1: "buf_inv b1" and c1: "unat (count b1) = unat (count b) - 1"
        and ov1: "overflow_count b1 = overflow_count b" and ct1: "contents b1 = tl (contents b)"
        by blast
      let ?out1 = "out[unat i := hd (contents b)]"
      let ?k1 = "min (unat max_count - unat (i + 1)) (unat (count b1))"
      have k: "?k = Suc ?k1" using lt' c0 by (simp add: i1 c1)
      from "1.IH" [OF lt pop [symmetric] refl refl refl refl inv1] obtain b' out' where
        loop1: "PopBatch_loop b1 ?out1 max_count (i + 1) (cnt + 1) = (cnt + 1 + of_nat ?k1, b', out')"
        and inv': "buf_inv b'" and ct': "contents b' = drop ?k1 (contents b1)"
        and ov': "overflow_count b' = overflow_count b1"
        and len': "length out' = length ?out1"
        and nth': "\<forall>j < length ?out1. out' ! j =
            (if unat (i + 1) \<le> j \<and> j < unat (i + 1) + ?k1
             then contents b1 ! (j - unat (i + 1)) else ?out1 ! j)"
        by blast
      have loop: "PopBatch_loop b out max_count i cnt = (cnt + of_nat ?k, b', out')"
        using lt pop loop1 by (subst PopBatch_loop.simps) (simp add: k)
      have ct: "contents b' = drop ?k (contents b)"
        by (simp add: ct' ct1 k drop_Suc)
      have nth: "out' ! j =
            (if unat i \<le> j \<and> j < unat i + ?k then contents b ! (j - unat i) else out ! j)"
        if j: "j < length out" for j
      proof -
        from j nth' have eq: "out' ! j =
            (if unat i + 1 \<le> j \<and> j < unat i + 1 + ?k1
             then contents b1 ! (j - (unat i + 1)) else ?out1 ! j)"
          by (simp add: i1)
        show ?thesis
        proof (cases "j = unat i")
          case True
          then show ?thesis using eq j c0 by (simp add: k hd_contents_nth)
        next
          case False
          show ?thesis
          proof (cases "unat i + 1 \<le> j \<and> j < unat i + 1 + ?k1")
            case True
            then have "j - (unat i + 1) < length (tl (contents b))"
              by (simp add: length_contents c1) arith
            then have "contents b1 ! (j - (unat i + 1)) = contents b ! Suc (j - (unat i + 1))"
              by (simp add: ct1 nth_tl)
            moreover have "Suc (j - (unat i + 1)) = j - unat i" using True by arith
            ultimately show ?thesis using eq True by (simp add: k)
          next
            case F2: False
            then have a: "\<not> (unat i \<le> j \<and> j < unat i + ?k)" using False unfolding k by arith
            have "out' ! j = ?out1 ! j" unfolding eq by (rule if_not_P) (rule F2)
            also have "\<dots> = out ! j" using False by simp
            also have "\<dots> = (if unat i \<le> j \<and> j < unat i + ?k then contents b ! (j - unat i) else out ! j)"
              by (rule if_not_P [symmetric]) (rule a)
            finally show ?thesis .
          qed
        qed
      qed
      show ?thesis using loop inv' ct ov' ov1 len' nth by auto
    qed
  qed
qed

subsection \<open>Every operation keeps the invariant\<close>

lemma length_record_bytes: "length (record_bytes r) = 30"
  by (simp add: record_bytes_def bytes_u32_def bytes_u16_def)

lemma Clear_inv:
  "buf_inv b \<Longrightarrow> \<exists>b'. CircularBuffer_Clear (Some b) = (STATUS_OK, Some b') \<and> buf_inv b' \<and> count b' = 0"
  by (auto simp: CircularBuffer_Clear_def buf_inv_def TELEMETRY_BUFFER_SIZE_def)

lemma Peek_frame: "fst (snd (CircularBuffer_Peek bp ok offset)) = bp"
  by (simp add: CircularBuffer_Peek_def Let_def split: option.splits)

lemma Push_inv:
  assumes "buf_inv b"
  shows "\<exists>b'. CircularBuffer_Push (Some b) (Some r) = (STATUS_OK, Some b') \<and> buf_inv b'"
proof (cases "unat (count b) = TELEMETRY_BUFFER_SIZE")
  case True
  from Push_full [OF assms True, of r] show ?thesis by blast
next
  case False
  with assms have "unat (count b) < TELEMETRY_BUFFER_SIZE" by (simp add: buf_inv_def)
  from Push_not_full [OF assms this, of r] show ?thesis by blast
qed

lemma Pop_inv:
  assumes "buf_inv b"
  shows "\<exists>st b' r. CircularBuffer_Pop (Some b) True = (st, Some b', r) \<and> buf_inv b'"
proof (cases "count b = 0")
  case True
  with assms show ?thesis by (auto simp: Pop_empty buf_inv_def)
next
  case False
  from Pop_nonempty [OF assms False] show ?thesis by blast
qed

lemma PopBatch_inv:
  assumes "buf_inv b"
  shows "\<exists>n b' out'. CircularBuffer_PopBatch (Some b) (Some out) max_count = (n, Some b', Some out') \<and> buf_inv b'"
proof (cases "max_count = 0")
  case True
  with assms show ?thesis by (simp add: CircularBuffer_PopBatch_def)
next
  case False
  from PopBatch_loop_spec [OF assms, of out max_count 0 0] obtain n b' out' where
    "PopBatch_loop b out max_count 0 0 = (n, b', out')" "buf_inv b'" by blast
  with assms False show ?thesis by (simp add: CircularBuffer_PopBatch_def buf_inv_def)
qed

lemma apply_op_inv:
  assumes "buf_inv b"
  shows "\<exists>b'. apply_op op (Some b) = Some b' \<and> buf_inv b'"
proof (cases op)
  case Op_Init
  then show ?thesis using Init_inv [of b] by (simp add: CircularBuffer_Init_def)
next
  case (Op_Push r)
  then show ?thesis using Push_inv [OF assms, of r] by auto
next
  case Op_Pop
  then show ?thesis using Pop_inv [OF assms] by auto
next
  case (Op_Peek offset)
  then show ?thesis using assms by (simp add: Peek_frame)
next
  case Op_Clear
  then show ?thesis using Clear_inv [OF assms] by auto
next
  case (Op_PopBatch max_count)
  then show ?thesis
    using PopBatch_inv [OF assms, of "replicate (unat max_count) zero_record" max_count] by auto
qed

lemma run_ops_inv:
  "buf_inv b \<Longrightarrow> \<exists>b'. run_ops ops (Some b) = Some b' \<and> buf_inv b'"
proof (induction ops arbitrary: b)
  case Nil
  then show ?case by simp
next
  case (Cons op ops)
  from apply_op_inv [OF Cons.prems, of op] obtain b1 where
    "apply_op op (Some b) = Some b1" "buf_inv b1" by blast
  with Cons.IH [of b1] show ?case by simp
qed


lemma unat_of_nat_le_word: "k \<le> unat (c::u32) \<Longrightarrow> unat (of_nat k :: u32) = k"
proof -
  assume "k \<le> unat c"
  moreover have "unat c < 2 ^ 32" using unsigned_less [of c] by simp
  ultimately have "k < 2 ^ 32" by simp
  then show ?thesis by (simp add: unat_of_nat)
qed


subsection \<open>Claims about the record buffer\<close>

text \<open>
  Claim C1. Whatever sequence of operations is run on an initialized buffer, the count stays
  between 0 and \<^verbatim>\<open>TELEMETRY_BUFFER_SIZE\<close>. A push then returns \<^verbatim>\<open>STATUS_OK\<close>, never a
  fullness failure: on a full buffer it drops exactly the oldest record, keeps the count and
  adds one to \<^verbatim>\<open>overflow_count\<close> (a 32-bit counter); on a buffer that is not full it adds
  one to the count and leaves \<^verbatim>\<open>overflow_count\<close> alone. Initialization itself gives such a
  buffer, with count 0.
\<close>

theorem count_bounded_overwrite_oldest:
  assumes "buf_inv b0"
  shows "(\<exists>bi. CircularBuffer_Init (Some x) = (STATUS_OK, Some bi) \<and> buf_inv bi \<and> count bi = 0) \<and>
    (\<exists>b. run_ops ops (Some b0) = Some b \<and> buf_inv b \<and> unat (count b) \<le> TELEMETRY_BUFFER_SIZE \<and>
       (\<exists>b'. CircularBuffer_Push (Some b) (Some r) = (STATUS_OK, Some b') \<and>
          (if unat (count b) = TELEMETRY_BUFFER_SIZE
           then count b' = count b \<and> overflow_count b' = overflow_count b + 1 \<and>
                contents b' = tl (contents b) @ [r]
           else unat (count b') = unat (count b) + 1 \<and> overflow_count b' = overflow_count b \<and>
                contents b' = contents b @ [r])))"
proof
  show "\<exists>bi. CircularBuffer_Init (Some x) = (STATUS_OK, Some bi) \<and> buf_inv bi \<and> count bi = 0"
    using Init_inv [of x] by (simp add: CircularBuffer_Init_def)
next
  from run_ops_inv [OF assms, of ops] obtain b where
    run: "run_ops ops (Some b0) = Some b" and inv: "buf_inv b" by blast
  from inv have le: "unat (count b) \<le> TELEMETRY_BUFFER_SIZE" by (simp add: buf_inv_def)
  have "\<exists>b'. CircularBuffer_Push (Some b) (Some r) = (STATUS_OK, Some b') \<and>
          (if unat (count b) = TELEMETRY_BUFFER_SIZE
           then count b' = count b \<and> overflow_count b' = overflow_count b + 1 \<and>
                contents b' = tl (contents b) @ [r]
           else unat (count b') = unat (count b) + 1 \<and> overflow_count b' = overflow_count b \<and>
                contents b' = contents b @ [r])"
  proof (cases "unat (count b) = TELEMETRY_BUFFER_SIZE")
    case True
    from Push_full [OF inv True, of r] show ?thesis using True by auto
  next
    case False
    with le have "unat (count b) < TELEMETRY_BUFFER_SIZE" by simp
    from Push_not_full [OF inv this, of r] show ?thesis using False by auto
  qed
  with run inv le show "\<exists>b. run_ops ops (Some b0) = Some b \<and> buf_inv b \<and>
       unat (count b) \<le> TELEMETRY_BUFFER_SIZE \<and>
       (\<exists>b'. CircularBuffer_Push (Some b) (Some r) = (STATUS_OK, Some b') \<and>
          (if unat (count b) = TELEMETRY_BUFFER_SIZE
           then count b' = count b \<and> overflow_count b' = overflow_count b + 1 \<and>
                contents b' = tl (contents b) @ [r]
           else unat (count b') = unat (count b) + 1 \<and> overflow_count b' = overflow_count b \<and>
                contents b' = contents b @ [r]))"
    by blast
qed


text \<open>
  The claim at a full buffer: a push there, and a push after a push, a pop, a peek and a
  batch of three.
\<close>

theorem count_bounded_overwrite_oldest_witness:
  "buf_inv \<lparr>records = replicate 2048 zero_record, write_index = 5, read_index = 5,
            count = 2048, overflow_count = 0, initialized = True\<rparr> \<and>
   (\<exists>b'. CircularBuffer_Push
           (Some \<lparr>records = replicate 2048 zero_record, write_index = 5, read_index = 5,
                  count = 2048, overflow_count = 0, initialized = True\<rparr>)
           (Some (zero_record\<lparr>timestamp := 8\<rparr>)) = (STATUS_OK, Some b') \<and>
         count b' = 2048 \<and> overflow_count b' = 1 \<and>
         contents b' =
           tl (contents \<lparr>records = replicate 2048 zero_record, write_index = 5, read_index = 5,
                  count = 2048, overflow_count = 0, initialized = True\<rparr>) @
           [zero_record\<lparr>timestamp := 8\<rparr>]) \<and>
   (\<exists>b. run_ops [Op_Push (zero_record\<lparr>timestamp := 7\<rparr>), Op_Pop, Op_Peek 0, Op_PopBatch 3]
            (Some \<lparr>records = replicate 2048 zero_record, write_index = 5, read_index = 5,
                   count = 2048, overflow_count = 0, initialized = True\<rparr>) = Some b \<and>
         buf_inv b \<and> unat (count b) \<le> TELEMETRY_BUFFER_SIZE \<and>
         (\<exists>b'. CircularBuffer_Push (Some b) (Some (zero_record\<lparr>timestamp := 8\<rparr>)) = (STATUS_OK, Some b') \<and>
            (if unat (count b) = TELEMETRY_BUFFER_SIZE
             then count b' = count b \<and> overflow_count b' = overflow_count b + 1 \<and>
                  contents b' = tl (contents b) @ [zero_record\<lparr>timestamp := 8\<rparr>]
             else unat (count b') = unat (count b) + 1 \<and> overflow_count b' = overflow_count b \<and>
                  contents b' = contents b @ [zero_record\<lparr>timestamp := 8\<rparr>])))"
proof -
  let ?B = "\<lparr>records = replicate 2048 zero_record, write_index = 5, read_index = 5,
            count = 2048, overflow_count = 0, initialized = True\<rparr>"
  have h: "buf_inv ?B"
    by (simp add: buf_inv_def TELEMETRY_BUFFER_SIZE_def)
  have full: "unat (count ?B) = TELEMETRY_BUFFER_SIZE"
    by (simp add: TELEMETRY_BUFFER_SIZE_def)
  from count_bounded_overwrite_oldest [OF h, of ?B "[]" "zero_record\<lparr>timestamp := 8\<rparr>"]
  have at_full: "\<exists>b'. CircularBuffer_Push (Some ?B) (Some (zero_record\<lparr>timestamp := 8\<rparr>)) =
        (STATUS_OK, Some b') \<and> count b' = 2048 \<and> overflow_count b' = 1 \<and>
        contents b' = tl (contents ?B) @ [zero_record\<lparr>timestamp := 8\<rparr>]"
    using full by auto
  from count_bounded_overwrite_oldest [OF h, of ?B
      "[Op_Push (zero_record\<lparr>timestamp := 7\<rparr>), Op_Pop, Op_Peek 0, Op_PopBatch 3]"
      "zero_record\<lparr>timestamp := 8\<rparr>"]
  show ?thesis using h at_full by blast
qed

text \<open>
  Claim C3. A push of \<open>r\<close> on an empty initialized buffer followed by a pop returns
  \<^verbatim>\<open>STATUS_OK\<close> and a record equal to \<open>r\<close> in every byte, the trailing \<^verbatim>\<open>crc16\<close> included.
  The packed struct has 30 bytes (six 4-byte fields, four single bytes, the 2-byte
  \<^verbatim>\<open>crc16\<close>), not the 32 its comment and \<^verbatim>\<open>TELEMETRY_RECORD_SIZE\<close> announce.
\<close>

theorem push_pop_roundtrip:
  assumes "buf_inv b" and "count b = 0"
  shows "\<exists>b1 b2 r'. CircularBuffer_Push (Some b) (Some r) = (STATUS_OK, Some b1) \<and>
           CircularBuffer_Pop (Some b1) True = (STATUS_OK, Some b2, Some r') \<and>
           r' = r \<and> record_bytes r' = record_bytes r \<and> length (record_bytes r') = 30 \<and>
           crc16 r' = crc16 r"
proof -
  from assms have nf: "unat (count b) < TELEMETRY_BUFFER_SIZE" and e: "contents b = []"
    by (simp_all add: TELEMETRY_BUFFER_SIZE_def contents_def)
  from Push_not_full [OF assms(1) nf, of r] obtain b1 where
    push: "CircularBuffer_Push (Some b) (Some r) = (STATUS_OK, Some b1)" and inv1: "buf_inv b1"
    and c1: "unat (count b1) = unat (count b) + 1" and ct1: "contents b1 = contents b @ [r]"
    by blast
  from c1 have ne: "count b1 \<noteq> 0" by auto
  from Pop_nonempty [OF inv1 ne] obtain b2 where
    "CircularBuffer_Pop (Some b1) True = (STATUS_OK, Some b2, Some (hd (contents b1)))" by blast
  with push ct1 e show ?thesis by (simp add: length_record_bytes)
qed

text \<open>The round trip on the buffer that \<^verbatim>\<open>CircularBuffer_Init\<close> leaves.\<close>

theorem push_pop_roundtrip_witness:
  "buf_inv \<lparr>records = replicate 2048 zero_record, write_index = 0, read_index = 0,
            count = 0, overflow_count = 0, initialized = True\<rparr> \<and>
   (\<exists>b1 b2 r'.
      CircularBuffer_Push
        (Some \<lparr>records = replicate 2048 zero_record, write_index = 0, read_index = 0,
            count = 0, overflow_count = 0, initialized = True\<rparr>)
        (Some (zero_record\<lparr>timestamp := 1700000000, flags := 3, crc16 := 0xBEEF\<rparr>)) = (STATUS_OK, Some b1) \<and>
      CircularBuffer_Pop (Some b1) True = (STATUS_OK, Some b2, Some r') \<and>
      r' = zero_record\<lparr>timestamp := 1700000000, flags := 3, crc16 := 0xBEEF\<rparr> \<and>
      length (record_bytes r') = 30 \<and> crc16 r' = 0xBEEF)"
proof -
  have h: "buf_inv \<lparr>records = replicate 2048 zero_record, write_index = 0, read_index = 0,
            count = 0, overflow_count = 0, initialized = True\<rparr>"
    by (simp add: buf_inv_def TELEMETRY_BUFFER_SIZE_def)
  have c: "count \<lparr>records = replicate 2048 zero_record, write_index = 0, read_index = 0,
            count = 0, overflow_count = 0, initialized = True\<rparr> = 0"
    by simp
  from push_pop_roundtrip [OF h c, of "zero_record\<lparr>timestamp := 1700000000, flags := 3, crc16 := 0xBEEF\<rparr>"]
  show ?thesis using h by auto
qed

text \<open>
  Claim C8. On an initialized buffer and for \<open>max_count > 0\<close>, \<^verbatim>\<open>CircularBuffer_PopBatch\<close>
  returns exactly \<open>min max_count count\<close> records, the oldest ones in FIFO order, and removes
  them from the buffer; when \<open>max_count\<close> is greater than the count it returns \<open>count\<close>
  records and leaves the buffer empty. The caller's array must have room for the records
  that are copied.
\<close>

theorem pop_batch_oldest_first:
  assumes inv: "buf_inv b" and pos: "0 < max_count"
    and cap: "min (unat max_count) (unat (count b)) \<le> length out"
  shows "\<exists>n b' out'.
     CircularBuffer_PopBatch (Some b) (Some out) max_count = (n, Some b', Some out') \<and>
     unat n = min (unat max_count) (unat (count b)) \<and>
     take (unat n) out' = take (unat n) (contents b) \<and>
     contents b' = drop (unat n) (contents b) \<and>
     unat (count b') = unat (count b) - unat n \<and>
     buf_inv b' \<and>
     (unat (count b) < unat max_count \<longrightarrow> n = count b \<and> count b' = 0 \<and> contents b' = [])"
proof -
  let ?k = "min (unat max_count) (unat (count b))"
  from PopBatch_loop_spec [OF inv, of out max_count 0 0] obtain b' out' where
    loop0: "PopBatch_loop b out max_count 0 0 =
       (0 + of_nat (min (unat max_count - unat (0::u32)) (unat (count b))), b', out')"
    and inv': "buf_inv b'"
    and ct0: "contents b' = drop (min (unat max_count - unat (0::u32)) (unat (count b))) (contents b)"
    and len: "length out' = length out"
    and nth0: "\<forall>j < length out. out' ! j =
        (if unat (0::u32) \<le> j \<and> j < unat (0::u32) + min (unat max_count - unat (0::u32)) (unat (count b))
         then contents b ! (j - unat (0::u32)) else out ! j)"
    by blast
  have loop: "PopBatch_loop b out max_count 0 0 = (of_nat ?k, b', out')"
    using loop0 by simp
  have ct: "contents b' = drop ?k (contents b)"
    using ct0 by simp
  have nth: "out' ! j = contents b ! j" if "j < ?k" and "j < length out" for j
    using nth0 that by simp
  have ini: "initialized b" using inv by (simp add: buf_inv_def)
  have n: "unat (of_nat ?k :: u32) = ?k"
    by (rule unat_of_nat_le_word [of _ "count b"]) simp
  have call: "CircularBuffer_PopBatch (Some b) (Some out) max_count = (of_nat ?k, Some b', Some out')"
  proof -
    from pos have "max_count \<noteq> 0" by auto
    then show ?thesis using ini loop by (simp add: CircularBuffer_PopBatch_def)
  qed
  have tk: "take ?k out' = take ?k (contents b)"
  proof (rule nth_equalityI)
    show "length (take ?k out') = length (take ?k (contents b))"
      using cap by (simp add: len length_contents)
  next
    fix j assume "j < length (take ?k out')"
    then have j: "j < ?k" and jl: "j < length out" by (simp_all add: len)
    then have "out' ! j = contents b ! j" by (rule nth)
    with j show "take ?k out' ! j = take ?k (contents b) ! j" by simp
  qed
  have cnt: "unat (count b') = unat (count b) - ?k"
    using arg_cong [OF ct, of length] by (simp add: length_contents)
  have emp: "of_nat ?k = count b \<and> count b' = 0 \<and> contents b' = []"
    if "unat (count b) < unat max_count"
  proof -
    from that have k: "?k = unat (count b)" by simp
    have "unat (count b') = 0" using cnt k by simp
    then have "count b' = 0" by (simp add: unat_eq_0)
    moreover have "contents b' = []" using ct k by (simp add: length_contents [symmetric] del: length_contents)
    moreover have "(of_nat ?k :: u32) = count b" unfolding k by simp
    ultimately show ?thesis by simp
  qed
  show ?thesis
  proof (intro exI conjI)
    show "CircularBuffer_PopBatch (Some b) (Some out) max_count = (of_nat ?k, Some b', Some out')"
      by (rule call)
    show "unat (of_nat ?k :: u32) = ?k" by (rule n)
    show "take (unat (of_nat ?k :: u32)) out' = take (unat (of_nat ?k :: u32)) (contents b)"
      unfolding n by (rule tk)
    show "contents b' = drop (unat (of_nat ?k :: u32)) (contents b)"
      unfolding n by (rule ct)
    show "unat (count b') = unat (count b) - unat (of_nat ?k :: u32)"
      unfolding n by (rule cnt)
    show "buf_inv b'" by (rule inv')
    show "unat (count b) < unat max_count \<longrightarrow>
        of_nat ?k = count b \<and> count b' = 0 \<and> contents b' = []"
      using emp by blast
  qed
qed


text \<open>Three records that wrap around the end of the array, drained with \<open>max_count = 5\<close>.\<close>

theorem pop_batch_oldest_first_witness:
  "buf_inv \<lparr>records = (replicate 2048 zero_record)[2047 := zero_record\<lparr>timestamp := 1\<rparr>,
                0 := zero_record\<lparr>timestamp := 2\<rparr>],
            write_index = 1, read_index = 2046, count = 3, overflow_count = 0, initialized = True\<rparr> \<and>
   (0::u32) < 5 \<and>
   (\<exists>n b' out'.
      CircularBuffer_PopBatch
        (Some \<lparr>records = (replicate 2048 zero_record)[2047 := zero_record\<lparr>timestamp := 1\<rparr>,
                0 := zero_record\<lparr>timestamp := 2\<rparr>],
            write_index = 1, read_index = 2046, count = 3, overflow_count = 0, initialized = True\<rparr>)
        (Some (replicate 5 (zero_record\<lparr>timestamp := 99\<rparr>))) 5 = (n, Some b', Some out') \<and>
      n = 3 \<and> count b' = 0 \<and>
      take 3 out' = [zero_record, zero_record\<lparr>timestamp := 1\<rparr>, zero_record\<lparr>timestamp := 2\<rparr>])"
proof -
  let ?B = "\<lparr>records = (replicate 2048 zero_record)[2047 := zero_record\<lparr>timestamp := 1\<rparr>,
                0 := zero_record\<lparr>timestamp := 2\<rparr>],
            write_index = 1, read_index = 2046, count = 3, overflow_count = 0, initialized = True\<rparr>"
  let ?out = "replicate 5 (zero_record\<lparr>timestamp := 99\<rparr>)"
  have h1: "buf_inv ?B"
    by (simp add: buf_inv_def TELEMETRY_BUFFER_SIZE_def)
  have h2: "(0::u32) < 5" by simp
  have h3: "min (unat (5::u32)) (unat (count ?B)) \<le> length ?out" by simp
  have ct: "contents ?B = [zero_record, zero_record\<lparr>timestamp := 1\<rparr>, zero_record\<lparr>timestamp := 2\<rparr>]"
    by (simp add: contents_def TELEMETRY_BUFFER_SIZE_def upt_rec)
  from pop_batch_oldest_first [OF h1 h2 h3] obtain n b' out' where
    call: "CircularBuffer_PopBatch (Some ?B) (Some ?out) 5 = (n, Some b', Some out')"
    and n: "unat n = min (unat (5::u32)) (unat (count ?B))"
    and tk: "take (unat n) out' = take (unat n) (contents ?B)"
    and emp: "unat (count ?B) < unat (5::u32) \<longrightarrow> n = count ?B \<and> count b' = 0 \<and> contents b' = []"
    by blast
  from emp have n3: "n = 3" and c0: "count b' = 0" by simp_all
  from tk have "take 3 out' = [zero_record, zero_record\<lparr>timestamp := 1\<rparr>, zero_record\<lparr>timestamp := 2\<rparr>]"
    unfolding n3 ct by simp
  with call n3 c0 h1 h2 show ?thesis by blast
qed

text \<open>
  Claim C9. On an initialized buffer, \<^verbatim>\<open>CircularBuffer_Peek\<close> with \<open>offset < count\<close> returns
  \<^verbatim>\<open>STATUS_OK\<close> and the record at index \<open>(read_index + offset) mod TELEMETRY_BUFFER_SIZE\<close>,
  which is the record \<open>offset\<close> places behind the oldest; with \<open>offset \<ge> count\<close> it returns
  \<^verbatim>\<open>STATUS_NO_DATA\<close> and copies nothing. In both cases the whole buffer (count, indices,
  stored records) is unchanged, and so is the result of a pop that follows.
\<close>

theorem peek_leaves_buffer_unchanged:
  assumes ini: "initialized b"
  shows "(offset < count b \<longrightarrow>
           CircularBuffer_Peek (Some b) True offset =
             (STATUS_OK, Some b,
              Some (records b ! ((unat (read_index b) + unat offset) mod TELEMETRY_BUFFER_SIZE))) \<and>
           records b ! ((unat (read_index b) + unat offset) mod TELEMETRY_BUFFER_SIZE) =
             contents b ! unat offset) \<and>
         (count b \<le> offset \<longrightarrow>
           CircularBuffer_Peek (Some b) True offset = (STATUS_NO_DATA, Some b, None)) \<and>
         CircularBuffer_Pop (fst (snd (CircularBuffer_Peek (Some b) True offset))) True =
           CircularBuffer_Pop (Some b) True"
proof (intro conjI impI)
  assume lt: "offset < count b"
  then have nle: "\<not> count b \<le> offset" by simp
  show "CircularBuffer_Peek (Some b) True offset =
      (STATUS_OK, Some b,
       Some (records b ! ((unat (read_index b) + unat offset) mod TELEMETRY_BUFFER_SIZE)))"
    using ini nle
    by (simp add: CircularBuffer_Peek_def Let_def TELEMETRY_BUFFER_SIZE_def unat_add_mod)
  from lt have "unat offset < unat (count b)" by (simp add: word_less_nat_alt)
  then show "records b ! ((unat (read_index b) + unat offset) mod TELEMETRY_BUFFER_SIZE) =
      contents b ! unat offset"
    by (simp add: contents_def)
next
  assume "count b \<le> offset"
  then show "CircularBuffer_Peek (Some b) True offset = (STATUS_NO_DATA, Some b, None)"
    using ini by (simp add: CircularBuffer_Peek_def)
next
  show "CircularBuffer_Pop (fst (snd (CircularBuffer_Peek (Some b) True offset))) True =
      CircularBuffer_Pop (Some b) True"
    by (simp add: Peek_frame)
qed

text \<open>A peek inside and a peek outside the stored records.\<close>

theorem peek_leaves_buffer_unchanged_witness:
  "initialized \<lparr>records = (replicate 2048 zero_record)[2047 := zero_record\<lparr>timestamp := 1\<rparr>],
            write_index = 1, read_index = 2046, count = 3, overflow_count = 0, initialized = True\<rparr> \<and>
   CircularBuffer_Peek
     (Some \<lparr>records = (replicate 2048 zero_record)[2047 := zero_record\<lparr>timestamp := 1\<rparr>],
            write_index = 1, read_index = 2046, count = 3, overflow_count = 0, initialized = True\<rparr>)
     True 1 =
     (STATUS_OK,
      Some \<lparr>records = (replicate 2048 zero_record)[2047 := zero_record\<lparr>timestamp := 1\<rparr>],
            write_index = 1, read_index = 2046, count = 3, overflow_count = 0, initialized = True\<rparr>,
      Some (zero_record\<lparr>timestamp := 1\<rparr>)) \<and>
   CircularBuffer_Peek
     (Some \<lparr>records = (replicate 2048 zero_record)[2047 := zero_record\<lparr>timestamp := 1\<rparr>],
            write_index = 1, read_index = 2046, count = 3, overflow_count = 0, initialized = True\<rparr>)
     True 3 =
     (STATUS_NO_DATA,
      Some \<lparr>records = (replicate 2048 zero_record)[2047 := zero_record\<lparr>timestamp := 1\<rparr>],
            write_index = 1, read_index = 2046, count = 3, overflow_count = 0, initialized = True\<rparr>,
      None)"
proof -
  let ?B = "\<lparr>records = (replicate 2048 zero_record)[2047 := zero_record\<lparr>timestamp := 1\<rparr>],
            write_index = 1, read_index = 2046, count = 3, overflow_count = 0, initialized = True\<rparr>"
  have h: "initialized ?B" by simp
  from peek_leaves_buffer_unchanged [OF h, of 1] peek_leaves_buffer_unchanged [OF h, of 3]
  show ?thesis by (simp add: TELEMETRY_BUFFER_SIZE_def)
qed

section \<open>Proofs: CRC engine\<close>

subsection \<open>One byte of the code is eight bits of the reference\<close>

lemma top_bit_test: "(x AND 0x8000 \<noteq> 0) = bit (x::u16) 15"
proof -
  have "(0x8000 :: u16) = 2 ^ 15" by simp
  then show ?thesis by (simp only: and_exp_eq_0_iff_not_bit) simp
qed

lemma crc_shift_alt: "crc_shift x = (if bit x 15 then push_bit 1 x XOR 0x1021 else push_bit 1 x)"
  by (simp add: crc_shift_def top_bit_test)

lemma crc_bits_loop_unroll:
  "crc_bits_loop 0 x = crc_shift (crc_shift (crc_shift (crc_shift (crc_shift (crc_shift (crc_shift (crc_shift x)))))))"
  by (simp add: crc_bits_loop.simps)

lemma bit_shl1_u16: "bit (push_bit 1 (x::u16)) n = (0 < n \<and> n < 16 \<and> bit x (n - 1))"
  by (simp only: bit_push_bit_iff possible_bit_word) auto

lemma bit_shl1_u8: "bit (push_bit 1 (x::u8)) n = (0 < n \<and> n < 8 \<and> bit x (n - 1))"
  by (simp only: bit_push_bit_iff possible_bit_word) auto

lemma bit_byte_high: "bit (push_bit 8 (ucast (m::u8)) :: u16) n = (8 \<le> n \<and> n < 16 \<and> bit m (n - 8))"
  by (auto simp: bit_simps)

lemma shift_in_byte:
  "crc_shift (c XOR push_bit 8 (ucast (m::u8))) =
     crc_ref_bit c (bit m 7) XOR push_bit 8 (ucast (push_bit 1 m :: u8))"
proof -
  have top: "bit (c XOR push_bit 8 (ucast m :: u16)) 15 = (bit c 15 \<noteq> bit m 7)"
    by (simp add: bit_xor_iff bit_byte_high)
  have sh: "push_bit 1 (c XOR push_bit 8 (ucast m :: u16)) =
      push_bit 1 c XOR push_bit 8 (ucast (push_bit 1 m :: u8))"
  proof (rule bit_word_eqI)
    fix n assume "n < LENGTH(16)"
    show "bit (push_bit 1 (c XOR push_bit 8 (ucast m :: u16))) n =
        bit (push_bit 1 c XOR push_bit 8 (ucast (push_bit 1 m :: u8))) n"
      unfolding bit_shl1_u16 bit_xor_iff bit_byte_high bit_shl1_u8
      by (cases "n < 9") auto
  qed
  show ?thesis
    unfolding crc_shift_alt top crc_ref_bit_def sh
    by (simp add: ac_simps)
qed

lemma push_bit_8_byte: "push_bit 8 (m::u8) = 0"
  by (rule bit_word_eqI) (simp add: bit_simps)

lemma bit7_push: "k \<le> 7 \<Longrightarrow> bit (push_bit k (m::u8)) 7 = bit m (7 - k)"
  by (simp add: bit_simps)

lemma crc_shift_iter:
  "k \<le> 8 \<Longrightarrow>
   (crc_shift ^^ k) (c XOR push_bit 8 (ucast (m::u8))) =
     foldl crc_ref_bit c (map (\<lambda>i. bit m (7 - i)) [0..<k]) XOR
     push_bit 8 (ucast (push_bit k m :: u8))"
proof (induction k)
  case 0
  then show ?case by simp
next
  case (Suc k)
  then have k: "k \<le> 7" by simp
  let ?F = "foldl crc_ref_bit c (map (\<lambda>i. bit m (7 - i)) [0..<k])"
  have "(crc_shift ^^ Suc k) (c XOR push_bit 8 (ucast m)) =
      crc_shift (?F XOR push_bit 8 (ucast (push_bit k m :: u8)))"
    using Suc by simp
  also have "\<dots> = crc_ref_bit ?F (bit (push_bit k m) 7) XOR
      push_bit 8 (ucast (push_bit 1 (push_bit k m) :: u8))"
    by (rule shift_in_byte)
  also have "bit (push_bit k m) 7 = bit m (7 - k)"
    using k by (rule bit7_push)
  also have "push_bit 1 (push_bit k m) = push_bit (Suc k) m"
    by (simp only: push_bit_push_bit) simp
  finally show ?case by simp
qed

lemma crc_bits_loop_funpow: "crc_bits_loop 0 x = (crc_shift ^^ 8) x"
  unfolding crc_bits_loop_unroll by (simp add: eval_nat_numeral)

lemma bits_msb_first_upt: "map (\<lambda>i. bit m (7 - i)) [0..<8] = bits_msb_first (m::u8)"
  by (simp add: bits_msb_first_def upt_rec)

lemma crc_byte_ref:
  "crc_bits_loop 0 (c XOR push_bit 8 (ucast (m::u8))) = foldl crc_ref_bit c (bits_msb_first m)"
  unfolding crc_bits_loop_funpow
  using crc_shift_iter [of 8 c m]
  by (simp only: bits_msb_first_upt push_bit_8_byte) simp


lemma crc_update_ref: "crc_update c m = foldl crc_ref_bit c (bits_msb_first m)"
  unfolding crc_update_def by (rule crc_byte_ref)

lemma unat_succ_less_u16: "i < (m::u16) \<Longrightarrow> unat (i + 1) = unat i + 1"
proof -
  assume "i < m"
  then have "unat i < unat m" by (simp add: word_less_nat_alt)
  moreover have "unat m < 2 ^ 16" using unsigned_less [of m] by simp
  ultimately have "unat i + 1 < 2 ^ 16" by simp
  then show ?thesis by (simp add: unat_word_ariths)
qed

lemma crc_bytes_loop_foldl:
  "unat len \<le> length data \<Longrightarrow> i \<le> len \<Longrightarrow>
   crc_bytes_loop data len i c = foldl crc_update c (drop (unat i) (take (unat len) data))"
proof (induction data len i c rule: crc_bytes_loop.induct)
  case (1 data len i crc)
  show ?case
  proof (cases "i < len")
    case True
    then have lt: "unat i < unat len" by (simp add: word_less_nat_alt)
    have i1: "unat (i + 1) = unat i + 1" using True by (rule unat_succ_less_u16)
    have le: "i + 1 \<le> len" using lt i1 by (simp add: word_le_nat_alt)
    have il: "unat i < length (take (unat len) data)"
      using lt "1.prems"(1) by simp
    have "drop (unat i) (take (unat len) data) =
        take (unat len) data ! unat i # drop (Suc (unat i)) (take (unat len) data)"
      by (rule Cons_nth_drop_Suc [OF il, symmetric])
    then have split: "drop (unat i) (take (unat len) data) =
        data ! unat i # drop (unat (i + 1)) (take (unat len) data)"
      using lt by (simp add: i1)
    have "crc_bytes_loop data len i crc =
        crc_bytes_loop data len (i + 1) (crc_update crc (data ! unat i))"
      using True by (subst crc_bytes_loop.simps) simp
    also have "\<dots> = foldl crc_update (crc_update crc (data ! unat i))
        (drop (unat (i + 1)) (take (unat len) data))"
      using "1.IH" [OF True "1.prems"(1) le] .
    finally show ?thesis by (simp add: split)
  next
    case False
    with "1.prems"(2) have "i = len" by simp
    moreover have "crc_bytes_loop data len i crc = crc"
      using False by (subst crc_bytes_loop.simps) simp
    ultimately show ?thesis by simp
  qed
qed

lemma Calculate_CRC16_foldl:
  "unat len \<le> length data \<Longrightarrow>
   Calculate_CRC16 data len = foldl crc_update 0xFFFF (take (unat len) data)"
  by (simp add: Calculate_CRC16_def crc_bytes_loop_foldl)

lemma foldl_crc_update_ref:
  "foldl crc_update c bytes = foldl crc_ref_bit c (concat (map bits_msb_first bytes))"
  by (induction bytes arbitrary: c) (simp_all add: crc_update_ref)

lemma bit_dbl_u16: "bit ((x::u16) * 2) n = (0 < n \<and> n < 16 \<and> bit x (n - 1))"
  using bit_shl1_u16 [of x n] by simp

lemma xor_cancel_right: "(x::'a::len word) XOR a = y XOR a \<Longrightarrow> x = y"
proof -
  assume "x XOR a = y XOR a"
  then have "(x XOR a) XOR a = (y XOR a) XOR a" by simp
  then show ?thesis by (simp add: xor.assoc)
qed

lemma xor_cancel_left: "(a::'a::len word) XOR x = a XOR y \<Longrightarrow> x = y"
  using xor_cancel_right [of x a y] by (simp add: xor.commute)

lemma crc_shift_inj: "crc_shift x = crc_shift y \<Longrightarrow> x = y"
proof -
  assume eq: "crc_shift x = crc_shift y"
  have low: "bit (crc_shift z) 0 = bit z 15" for z
    by (simp add: crc_shift_alt bit_xor_iff bit_dbl_u16)
  from eq have top: "bit x 15 = bit y 15" using low [of x] low [of y] by simp
  have sh: "push_bit 1 x = push_bit 1 y"
  proof (cases "bit x 15")
    case True
    with top eq have "push_bit 1 x XOR 0x1021 = push_bit 1 y XOR 0x1021"
      by (simp only: crc_shift_alt if_True)
    then show ?thesis by (rule xor_cancel_right)
  next
    case False
    with top eq show ?thesis by (simp only: crc_shift_alt if_False)
  qed
  show "x = y"
  proof (rule bit_word_eqI)
    fix n assume n: "n < LENGTH(16)"
    show "bit x n = bit y n"
    proof (cases "n = 15")
      case True
      then show ?thesis using top by simp
    next
      case False
      with n have "Suc n < 16" by simp
      then show ?thesis
        using arg_cong [OF sh, of "\<lambda>w. bit w (Suc n)"] by (simp add: bit_dbl_u16)
    qed
  qed
qed

lemma crc_shift_funpow_inj: "(crc_shift ^^ k) x = (crc_shift ^^ k) y \<Longrightarrow> x = y"
  by (induction k) (auto dest: crc_shift_inj)

lemma byte_high_inj: "push_bit 8 (ucast (a::u8)) = (push_bit 8 (ucast (b::u8)) :: u16) \<Longrightarrow> a = b"
proof (rule bit_word_eqI)
  fix n assume eq: "push_bit 8 (ucast a) = (push_bit 8 (ucast b) :: u16)" and n: "n < LENGTH(8)"
  from arg_cong [OF eq, of "\<lambda>w. bit w (n + 8)"] n show "bit a n = bit b n"
    by (simp add: bit_byte_high)
qed

lemma crc_update_inj_state: "crc_update x b = crc_update y b \<Longrightarrow> x = y"
  unfolding crc_update_def crc_bits_loop_funpow
  by (drule crc_shift_funpow_inj) (rule xor_cancel_right)

lemma crc_update_inj_byte: "crc_update c a = crc_update c b \<Longrightarrow> a = b"
  unfolding crc_update_def crc_bits_loop_funpow
  by (drule crc_shift_funpow_inj) (drule xor_cancel_left, rule byte_high_inj)

lemma foldl_crc_update_inj: "foldl crc_update x bs = foldl crc_update y bs \<Longrightarrow> x = y"
  by (induction bs arbitrary: x y) (auto dest: crc_update_inj_state)

lemma crc_changed_byte:
  assumes len: "unat len \<le> length data" and k: "k < unat len" and ne: "b \<noteq> data ! k"
  shows "Calculate_CRC16 (data[k := b]) len \<noteq> Calculate_CRC16 data len"
proof
  let ?xs = "take (unat len) data"
  assume eq: "Calculate_CRC16 (data[k := b]) len = Calculate_CRC16 data len"
  have kl: "k < length ?xs" using len k by simp
  have old: "?xs = take k ?xs @ data ! k # drop (Suc k) ?xs"
    using id_take_nth_drop [OF kl] k by simp
  have new: "take (unat len) (data[k := b]) = take k ?xs @ b # drop (Suc k) ?xs"
    unfolding take_update_swap by (rule upd_conv_take_nth_drop [OF kl])
  have "foldl crc_update 0xFFFF (take k ?xs @ b # drop (Suc k) ?xs) =
      foldl crc_update 0xFFFF (take k ?xs @ data ! k # drop (Suc k) ?xs)"
    using eq len old new by (simp add: Calculate_CRC16_foldl)
  then have "crc_update (foldl crc_update 0xFFFF (take k ?xs)) b =
      crc_update (foldl crc_update 0xFFFF (take k ?xs)) (data ! k)"
    by (simp only: foldl_append foldl_Cons) (rule foldl_crc_update_inj)
  then have "b = data ! k" by (rule crc_update_inj_byte)
  with ne show False by simp
qed

lemma flip_bit_changes_byte: "j < 8 \<Longrightarrow> (x::u8) XOR push_bit j 1 \<noteq> x"
proof
  assume j: "j < 8" and eq: "x XOR push_bit j 1 = x"
  from arg_cong [OF eq, of "\<lambda>w. bit w j"] j show False
    by (simp add: bit_simps)
qed

lemma crc_check_value:
  "Calculate_CRC16 [0x31, 0x32, 0x33, 0x34, 0x35, 0x36, 0x37, 0x38, 0x39] 9 = 0x29B1"
  by (simp add: Calculate_CRC16_def crc_bytes_loop.simps crc_update_def crc_bits_loop_unroll crc_shift_def)



subsection \<open>Claim about the CRC\<close>

text \<open>
  Claim C6. For every byte sequence (of the length passed, which fits 16 bits),
  \<^verbatim>\<open>Calculate_CRC16\<close> equals the CRC-16/CCITT-FALSE reference (polynomial 0x1021, initial
  register 0xFFFF, most significant bit first, no final XOR), whose check value on
  \<^verbatim>\<open>"123456789"\<close> is 0x29B1; as a function it is deterministic; and flipping any single bit
  of any covered byte changes the computed code.
\<close>

theorem crc16_is_ccitt_false:
  assumes len: "unat len \<le> length data"
  shows "Calculate_CRC16 data len = crc16_ccitt_false_ref (take (unat len) data) \<and>
         (\<forall>k j. k < unat len \<longrightarrow> j < 8 \<longrightarrow>
            Calculate_CRC16 (data[k := data ! k XOR push_bit j 1]) len \<noteq> Calculate_CRC16 data len) \<and>
         crc16_ccitt_false_ref [0x31, 0x32, 0x33, 0x34, 0x35, 0x36, 0x37, 0x38, 0x39] = 0x29B1"
proof (intro conjI allI impI)
  show "Calculate_CRC16 data len = crc16_ccitt_false_ref (take (unat len) data)"
    using len by (simp add: Calculate_CRC16_foldl foldl_crc_update_ref crc16_ccitt_false_ref_def)
next
  fix k j assume k: "k < unat len" and j: "j < (8::nat)"
  have "data ! k XOR push_bit j 1 \<noteq> data ! k"
    using j by (rule flip_bit_changes_byte)
  with len k show "Calculate_CRC16 (data[k := data ! k XOR push_bit j 1]) len \<noteq> Calculate_CRC16 data len"
    by (rule crc_changed_byte)
next
  have "unat (9::u16) \<le> length [0x31, 0x32, 0x33, 0x34, 0x35, 0x36, 0x37, 0x38, 0x39 :: u8]"
    by simp
  then have "Calculate_CRC16 [0x31, 0x32, 0x33, 0x34, 0x35, 0x36, 0x37, 0x38, 0x39] 9 =
      crc16_ccitt_false_ref (take (unat (9::u16)) [0x31, 0x32, 0x33, 0x34, 0x35, 0x36, 0x37, 0x38, 0x39])"
    by (simp only: Calculate_CRC16_foldl foldl_crc_update_ref crc16_ccitt_false_ref_def)
  then show "crc16_ccitt_false_ref [0x31, 0x32, 0x33, 0x34, 0x35, 0x36, 0x37, 0x38, 0x39] = 0x29B1"
    by (simp add: crc_check_value)
qed


text \<open>The first three bytes of \<^verbatim>\<open>"ABCD"\<close>, and bit 2 of the second byte flipped.\<close>

theorem crc16_is_ccitt_false_witness:
  "unat (3::u16) \<le> length [0x41, 0x42, 0x43, 0x44 :: u8] \<and>
   Calculate_CRC16 [0x41, 0x42, 0x43, 0x44] 3 = crc16_ccitt_false_ref [0x41, 0x42, 0x43] \<and>
   Calculate_CRC16 [0x41, 0x42, 0x43, 0x44] 3 = 0xF508 \<and>
   Calculate_CRC16 [0x41, 0x46, 0x43, 0x44] 3 \<noteq> Calculate_CRC16 [0x41, 0x42, 0x43, 0x44] 3"
proof -
  have h: "unat (3::u16) \<le> length [0x41, 0x42, 0x43, 0x44 :: u8]" by simp
  have v: "Calculate_CRC16 [0x41, 0x42, 0x43, 0x44] 3 = 0xF508"
    by (simp add: Calculate_CRC16_def crc_bytes_loop.simps crc_update_def crc_bits_loop_unroll crc_shift_def)
  from crc16_is_ccitt_false [OF h] have
    r: "Calculate_CRC16 [0x41, 0x42, 0x43, 0x44] 3 = crc16_ccitt_false_ref (take (unat (3::u16)) [0x41, 0x42, 0x43, 0x44])"
    and f: "\<forall>k j. k < unat (3::u16) \<longrightarrow> j < 8 \<longrightarrow>
        Calculate_CRC16 ([0x41, 0x42, 0x43, 0x44][k := [0x41, 0x42, 0x43, 0x44] ! k XOR push_bit j 1]) 3 \<noteq>
        Calculate_CRC16 [0x41, 0x42, 0x43, 0x44] 3"
    by blast+
  from f [rule_format, of 1 2] have
    "Calculate_CRC16 [0x41, 0x46, 0x43, 0x44] 3 \<noteq> Calculate_CRC16 [0x41, 0x42, 0x43, 0x44] 3"
    by simp
  with h v r show ?thesis by simp
qed

section \<open>Proofs: NMEA parser\<close>

subsection \<open>Strings, checksum bytes and the two hex digits\<close>

lemma strchr_None_iff: "strchr s c = None \<longleftrightarrow> c \<notin> set s"
  by (induction s) auto

lemma strchr_first: "c \<notin> set xs \<Longrightarrow> strchr (xs @ c # ys) c = Some (length xs)"
  by (induction xs) auto

lemma foldl_xor_acc:
  "foldl (\<lambda>acc p. acc XOR byte_of p) a cs = a XOR foldl (\<lambda>acc p. acc XOR byte_of p) 0 cs"
proof (induction cs arbitrary: a)
  case Nil
  then show ?case by simp
next
  case (Cons c cs)
  have "foldl (\<lambda>acc p. acc XOR byte_of p) a (c # cs) =
      (a XOR byte_of c) XOR foldl (\<lambda>acc p. acc XOR byte_of p) 0 cs"
    using Cons [of "a XOR byte_of c"] by simp
  also have "\<dots> = a XOR (byte_of c XOR foldl (\<lambda>acc p. acc XOR byte_of p) 0 cs)"
    by (simp add: xor.assoc)
  also have "byte_of c XOR foldl (\<lambda>acc p. acc XOR byte_of p) 0 cs =
      foldl (\<lambda>acc p. acc XOR byte_of p) 0 (c # cs)"
    using Cons [of "byte_of c"] by simp
  finally show ?case .
qed

lemma xor_bytes_Cons: "xor_bytes (c # cs) = byte_of c XOR xor_bytes cs"
  unfolding xor_bytes_def using foldl_xor_acc [of "byte_of c" cs] by simp

lemma xor_bytes_append: "xor_bytes (xs @ ys) = xor_bytes xs XOR xor_bytes ys"
  unfolding xor_bytes_def using foldl_xor_acc [of "foldl (\<lambda>acc p. acc XOR byte_of p) 0 xs" ys] by simp

lemma unat_of_nat_u8: "n < 256 \<Longrightarrow> unat (of_nat n :: u8) = n"
  by (simp add: unat_of_nat)

lemma of_char_lt_256: "(of_char c :: nat) < 256"
  by (cases c) (simp add: of_char_def)

lemma byte_of_inj: "byte_of a = byte_of b \<Longrightarrow> a = b"
proof -
  assume "byte_of a = byte_of b"
  then have "unat (of_nat (of_char a) :: u8) = unat (of_nat (of_char b) :: u8)"
    by (simp add: byte_of_def)
  then have "(of_char a :: nat) = of_char b"
    using of_char_lt_256 [of a] of_char_lt_256 [of b] by (simp add: unat_of_nat_u8)
  then show ?thesis by simp
qed

lemma hex_value_lt_16: "hex_value c = Some d \<Longrightarrow> d < 16"
  by (auto simp: hex_value_def Let_def split: if_splits)

lemma hex_not_space: "hex_value c = Some d \<Longrightarrow> \<not> isspace c"
  by (auto simp: hex_value_def isspace_def Let_def split: if_splits)

lemma hex_not_sign: "hex_value c = Some d \<Longrightarrow> c \<noteq> CHR ''+'' \<and> c \<noteq> CHR ''-''"
  by (auto simp: hex_value_def Let_def split: if_splits)

lemma hex_not_x: "hex_value c = Some d \<Longrightarrow> c \<noteq> CHR ''x'' \<and> c \<noteq> CHR ''X''"
  by (auto simp: hex_value_def Let_def split: if_splits)

lemma hex_not_nul: "hex_value c = Some d \<Longrightarrow> c \<noteq> CHR 0x00"
  by (auto simp: hex_value_def Let_def split: if_splits)

lemma sscanf_two_digits:
  assumes "hex_value h1 = Some d1" and "hex_value h2 = Some d2"
  shows "sscanf_2hhx (h1 # h2 # rest) old = of_nat (16 * d1 + d2)"
  using assms hex_not_space [OF assms(1)] hex_not_sign [OF assms(1)] hex_not_x [OF assms(2)]
  by (simp add: sscanf_2hhx_def)

lemma two_digits_inj:
  assumes "d1 < 16" "d2 < 16" "e1 < 16" "e2 < 16"
    and "(of_nat (16 * d1 + d2) :: u8) = of_nat (16 * e1 + e2)"
  shows "16 * d1 + d2 = 16 * e1 + (e2::nat)"
proof -
  have d: "16 * d1 + d2 < 256" and e: "16 * e1 + e2 < 256" using assms(1-4) by simp_all
  have "16 * d1 + d2 = unat (of_nat (16 * d1 + d2) :: u8)"
    by (rule unat_of_nat_u8 [OF d, symmetric])
  also have "\<dots> = unat (of_nat (16 * e1 + e2) :: u8)"
    by (simp only: assms(5))
  also have "\<dots> = 16 * e1 + e2"
    by (rule unat_of_nat_u8 [OF e])
  finally show ?thesis .
qed

text \<open>The checksum test on a sentence with its envelope made explicit.\<close>

lemma ValidateChecksum_envelope:
  assumes "c_str mem = CHR ''$'' # body @ CHR ''*'' # tail" and "CHR ''*'' \<notin> set body"
  shows "GPS_ValidateChecksum (Some mem) \<longleftrightarrow> xor_bytes body = sscanf_2hhx tail 0"
proof -
  have "strchr (c_str mem) (CHR ''*'') = Some (length (CHR ''$'' # body))"
    using strchr_first [of "CHR ''*''" "CHR ''$'' # body" tail] assms by simp
  then show ?thesis
    using assms(1) by (simp add: GPS_ValidateChecksum_def)
qed

lemma ValidateChecksum_no_dollar:
  "c_str mem = [] \<or> hd (c_str mem) \<noteq> CHR ''$'' \<Longrightarrow> \<not> GPS_ValidateChecksum (Some mem)"
  by (auto simp: GPS_ValidateChecksum_def)

lemma ValidateChecksum_no_star:
  "CHR ''*'' \<notin> set (c_str mem) \<Longrightarrow> \<not> GPS_ValidateChecksum (Some mem)"
  using strchr_None_iff [of "c_str mem" "CHR ''*''"]
  by (auto simp: GPS_ValidateChecksum_def Let_def)

lemma ParseNMEA_rejects:
  "\<not> GPS_ValidateChecksum (Some mem) \<Longrightarrow>
   GPS_ParseNMEA fo (Some mem) (Some gd) st = Some (STATUS_ERROR, Some gd, st)"
  by (simp add: GPS_ParseNMEA_def)

lemma c_str_append_nul_free:
  "CHR 0x00 \<notin> set xs \<Longrightarrow> c_str (xs @ ys) = xs @ c_str ys"
  by (induction xs) (auto simp: c_str_def)

lemma c_str_nul_inside:
  "CHR 0x00 \<in> set xs \<Longrightarrow> c_str (xs @ ys) = c_str xs"
  by (induction xs) (auto simp: c_str_def)

lemma set_c_str: "set (c_str xs) \<subseteq> set xs"
  by (auto simp: c_str_def dest: set_takeWhileD)

lemma ValidateChecksum_general:
  assumes star: "CHR ''*'' \<notin> set body"
  shows "GPS_ValidateChecksum (Some (CHR ''$'' # body @ CHR ''*'' # tail)) \<longleftrightarrow>
         CHR 0x00 \<notin> set body \<and> xor_bytes body = sscanf_2hhx (c_str tail) 0"
proof (cases "CHR 0x00 \<in> set body")
  case True
  then have "CHR 0x00 \<in> set (CHR ''$'' # body)" by simp
  then have "c_str (CHR ''$'' # body @ CHR ''*'' # tail) = c_str (CHR ''$'' # body)"
    using c_str_nul_inside [of "CHR ''$'' # body" "CHR ''*'' # tail"] by simp
  moreover have "CHR ''*'' \<notin> set (c_str (CHR ''$'' # body))"
    using set_c_str [of "CHR ''$'' # body"] star by auto
  ultimately have "\<not> GPS_ValidateChecksum (Some (CHR ''$'' # body @ CHR ''*'' # tail))"
    by (simp add: ValidateChecksum_no_star)
  with True show ?thesis by simp
next
  case False
  then have "CHR 0x00 \<notin> set (CHR ''$'' # body @ [CHR ''*''])" by simp
  then have "c_str ((CHR ''$'' # body @ [CHR ''*'']) @ tail) = (CHR ''$'' # body @ [CHR ''*'']) @ c_str tail"
    by (rule c_str_append_nul_free)
  then have "c_str (CHR ''$'' # body @ CHR ''*'' # tail) = CHR ''$'' # body @ CHR ''*'' # c_str tail"
    by simp
  from ValidateChecksum_envelope [OF this star] False show ?thesis by simp
qed

lemma ValidateChecksum_two_digits:
  assumes star: "CHR ''*'' \<notin> set body"
    and h1: "hex_value h1 = Some d1" and h2: "hex_value h2 = Some d2"
  shows "GPS_ValidateChecksum (Some (CHR ''$'' # body @ CHR ''*'' # h1 # h2 # rest)) \<longleftrightarrow>
         CHR 0x00 \<notin> set body \<and> xor_bytes body = of_nat (16 * d1 + d2)"
proof -
  have "c_str ([h1, h2] @ rest) = [h1, h2] @ c_str rest"
    using hex_not_nul [OF h1] hex_not_nul [OF h2] by (intro c_str_append_nul_free) auto
  then have "sscanf_2hhx (c_str (h1 # h2 # rest)) 0 = of_nat (16 * d1 + d2)"
    using sscanf_two_digits [OF h1 h2] by simp
  with ValidateChecksum_general [OF star, of "h1 # h2 # rest"] show ?thesis by simp
qed

lemma altered_digits_rejected:
  assumes star: "CHR ''*'' \<notin> set body"
    and ok: "GPS_ValidateChecksum (Some (CHR ''$'' # body @ CHR ''*'' # h1 # h2 # rest))"
    and h1: "hex_value h1 = Some d1" and h2: "hex_value h2 = Some d2"
    and k1: "hex_value k1 = Some e1" and k2: "hex_value k2 = Some e2"
    and ne: "16 * e1 + e2 \<noteq> 16 * d1 + d2"
  shows "\<not> GPS_ValidateChecksum (Some (CHR ''$'' # body @ CHR ''*'' # k1 # k2 # rest))"
proof
  assume "GPS_ValidateChecksum (Some (CHR ''$'' # body @ CHR ''*'' # k1 # k2 # rest))"
  then have "xor_bytes body = of_nat (16 * e1 + e2)"
    using ValidateChecksum_two_digits [OF star k1 k2] by simp
  moreover have "xor_bytes body = of_nat (16 * d1 + d2)"
    using ok ValidateChecksum_two_digits [OF star h1 h2] by simp
  ultimately have "(of_nat (16 * e1 + e2) :: u8) = of_nat (16 * d1 + d2)" by simp
  then have "16 * e1 + e2 = 16 * d1 + d2"
    by (intro two_digits_inj hex_value_lt_16 [OF h1] hex_value_lt_16 [OF h2]
        hex_value_lt_16 [OF k1] hex_value_lt_16 [OF k2])
  with ne show False by simp
qed

lemma altered_byte_rejected:
  assumes star: "CHR ''*'' \<notin> set (pre @ c # post)"
    and ok: "GPS_ValidateChecksum (Some (CHR ''$'' # (pre @ c # post) @ CHR ''*'' # tail))"
    and ne: "c' \<noteq> c" and ns: "c' \<noteq> CHR ''*''"
  shows "\<not> GPS_ValidateChecksum (Some (CHR ''$'' # (pre @ c' # post) @ CHR ''*'' # tail))"
proof
  assume alt: "GPS_ValidateChecksum (Some (CHR ''$'' # (pre @ c' # post) @ CHR ''*'' # tail))"
  have star': "CHR ''*'' \<notin> set (pre @ c' # post)" using star ns by auto
  from ok ValidateChecksum_general [OF star, of tail]
  have a: "xor_bytes (pre @ c # post) = sscanf_2hhx (c_str tail) 0" by simp
  from alt ValidateChecksum_general [OF star', of tail]
  have b: "xor_bytes (pre @ c' # post) = sscanf_2hhx (c_str tail) 0" by simp
  from a b have "xor_bytes pre XOR (byte_of c XOR xor_bytes post) =
      xor_bytes pre XOR (byte_of c' XOR xor_bytes post)"
    by (simp add: xor_bytes_append xor_bytes_Cons)
  then have "byte_of c XOR xor_bytes post = byte_of c' XOR xor_bytes post"
    by (rule xor_cancel_left)
  then have "byte_of c = byte_of c'" by (rule xor_cancel_right)
  then have "c = c'" by (rule byte_of_inj)
  with ne show False by simp
qed


subsection \<open>Claims about the checksum\<close>

text \<open>
  Claim C4, as the code has it. \<^verbatim>\<open>GPS_ParseNMEA\<close> returns \<^verbatim>\<open>STATUS_ERROR\<close>, leaving the
  caller's data and the driver state alone, for every sentence that does not start with
  \<^verbatim>\<open>$\<close> or holds no \<^verbatim>\<open>*\<close>, and for every sentence whose first \<^verbatim>\<open>*\<close> is followed by two hex
  digits with an 8-bit value other than the XOR of the bytes between \<^verbatim>\<open>$\<close> and that \<^verbatim>\<open>*\<close>.
  So a valid sentence is rejected once its two hex digits are replaced by two hex digits
  of another value, or once a byte between \<^verbatim>\<open>$\<close> and \<^verbatim>\<open>*\<close> is replaced by a different byte
  other than \<^verbatim>\<open>*\<close>.
\<close>

theorem nmea_checksum_rejections:
  "(c_str mem = [] \<or> hd (c_str mem) \<noteq> CHR ''$'' \<or> CHR ''*'' \<notin> set (c_str mem) \<longrightarrow>
      GPS_ParseNMEA fo (Some mem) (Some gd) st = Some (STATUS_ERROR, Some gd, st)) \<and>
   (CHR ''*'' \<notin> set body \<and> hex_value h1 = Some d1 \<and> hex_value h2 = Some d2 \<and>
    xor_bytes body \<noteq> of_nat (16 * d1 + d2) \<longrightarrow>
      GPS_ParseNMEA fo (Some (CHR ''$'' # body @ CHR ''*'' # h1 # h2 # rest)) (Some gd) st =
        Some (STATUS_ERROR, Some gd, st)) \<and>
   (CHR ''*'' \<notin> set body \<and>
    GPS_ValidateChecksum (Some (CHR ''$'' # body @ CHR ''*'' # h1 # h2 # rest)) \<and>
    hex_value h1 = Some d1 \<and> hex_value h2 = Some d2 \<and>
    hex_value k1 = Some e1 \<and> hex_value k2 = Some e2 \<and> 16 * e1 + e2 \<noteq> 16 * d1 + d2 \<longrightarrow>
      GPS_ParseNMEA fo (Some (CHR ''$'' # body @ CHR ''*'' # k1 # k2 # rest)) (Some gd) st =
        Some (STATUS_ERROR, Some gd, st)) \<and>
   (CHR ''*'' \<notin> set (pre @ c # post) \<and>
    GPS_ValidateChecksum (Some (CHR ''$'' # (pre @ c # post) @ CHR ''*'' # tail)) \<and>
    c' \<noteq> c \<and> c' \<noteq> CHR ''*'' \<longrightarrow>
      GPS_ParseNMEA fo (Some (CHR ''$'' # (pre @ c' # post) @ CHR ''*'' # tail)) (Some gd) st =
        Some (STATUS_ERROR, Some gd, st))"
proof (intro conjI impI)
  assume "c_str mem = [] \<or> hd (c_str mem) \<noteq> CHR ''$'' \<or> CHR ''*'' \<notin> set (c_str mem)"
  then have "\<not> GPS_ValidateChecksum (Some mem)"
    using ValidateChecksum_no_dollar [of mem] ValidateChecksum_no_star [of mem] by blast
  then show "GPS_ParseNMEA fo (Some mem) (Some gd) st = Some (STATUS_ERROR, Some gd, st)"
    by (rule ParseNMEA_rejects)
next
  assume "CHR ''*'' \<notin> set body \<and> hex_value h1 = Some d1 \<and> hex_value h2 = Some d2 \<and>
    xor_bytes body \<noteq> of_nat (16 * d1 + d2)"
  then have "\<not> GPS_ValidateChecksum (Some (CHR ''$'' # body @ CHR ''*'' # h1 # h2 # rest))"
    using ValidateChecksum_two_digits [of body h1 d1 h2 d2 rest] by simp
  then show "GPS_ParseNMEA fo (Some (CHR ''$'' # body @ CHR ''*'' # h1 # h2 # rest)) (Some gd) st =
      Some (STATUS_ERROR, Some gd, st)"
    by (rule ParseNMEA_rejects)
next
  assume "CHR ''*'' \<notin> set body \<and>
    GPS_ValidateChecksum (Some (CHR ''$'' # body @ CHR ''*'' # h1 # h2 # rest)) \<and>
    hex_value h1 = Some d1 \<and> hex_value h2 = Some d2 \<and>
    hex_value k1 = Some e1 \<and> hex_value k2 = Some e2 \<and> 16 * e1 + e2 \<noteq> 16 * d1 + d2"
  then have "\<not> GPS_ValidateChecksum (Some (CHR ''$'' # body @ CHR ''*'' # k1 # k2 # rest))"
    using altered_digits_rejected [of body h1 h2 rest d1 d2 k1 e1 k2 e2] by blast
  then show "GPS_ParseNMEA fo (Some (CHR ''$'' # body @ CHR ''*'' # k1 # k2 # rest)) (Some gd) st =
      Some (STATUS_ERROR, Some gd, st)"
    by (rule ParseNMEA_rejects)
next
  assume "CHR ''*'' \<notin> set (pre @ c # post) \<and>
    GPS_ValidateChecksum (Some (CHR ''$'' # (pre @ c # post) @ CHR ''*'' # tail)) \<and>
    c' \<noteq> c \<and> c' \<noteq> CHR ''*''"
  then have "\<not> GPS_ValidateChecksum (Some (CHR ''$'' # (pre @ c' # post) @ CHR ''*'' # tail))"
    using altered_byte_rejected [of pre c post tail c'] by blast
  then show "GPS_ParseNMEA fo (Some (CHR ''$'' # (pre @ c' # post) @ CHR ''*'' # tail)) (Some gd) st =
      Some (STATUS_ERROR, Some gd, st)"
    by (rule ParseNMEA_rejects)
qed

text \<open>
  The four cases on \<^verbatim>\<open>$GPGGA,1,2,3,4,5,0,7,8,9*4D\<close>: without its \<^verbatim>\<open>$\<close>, with the digits
  \<^verbatim>\<open>47\<close>, with the digits \<^verbatim>\<open>4E\<close>, and with one byte of the body changed.
\<close>

theorem nmea_checksum_rejections_witness:
  "hd (c_str ''GPGGA,1,2,3,4,5,0,7,8,9*4D'') \<noteq> CHR ''$'' \<and>
   GPS_ParseNMEA exact_ops (Some ''GPGGA,1,2,3,4,5,0,7,8,9*4D'') (Some no_gps_data) gps_after_init =
     Some (STATUS_ERROR, Some no_gps_data, gps_after_init) \<and>
   xor_bytes ''GPGGA,1,2,3,4,5,0,7,8,9'' = 0x4D \<and>
   GPS_ParseNMEA exact_ops (Some ''$GPGGA,1,2,3,4,5,0,7,8,9*47'') (Some no_gps_data) gps_after_init =
     Some (STATUS_ERROR, Some no_gps_data, gps_after_init) \<and>
   GPS_ValidateChecksum (Some ''$GPGGA,1,2,3,4,5,0,7,8,9*4D'') \<and>
   GPS_ParseNMEA exact_ops (Some ''$GPGGA,1,2,3,4,5,0,7,8,9*4E'') (Some no_gps_data) gps_after_init =
     Some (STATUS_ERROR, Some no_gps_data, gps_after_init) \<and>
   GPS_ParseNMEA exact_ops (Some ''$GPGGA,1,2,3,4,5,1,7,8,9*4D'') (Some no_gps_data) gps_after_init =
     Some (STATUS_ERROR, Some no_gps_data, gps_after_init)"
proof -
  let ?body = "''GPGGA,1,2,3,4,5,0,7,8,9''"
  note T = nmea_checksum_rejections [where fo = exact_ops and gd = no_gps_data
      and st = gps_after_init and mem = "''GPGGA,1,2,3,4,5,0,7,8,9*4D''"
      and body = ?body and ?h1.0 = "CHR ''4''" and ?d1.0 = 4 and ?h2.0 = "CHR ''D''" and ?d2.0 = 13
      and rest = "[]" and ?k1.0 = "CHR ''4''" and ?e1.0 = 4 and ?k2.0 = "CHR ''E''" and ?e2.0 = 14
      and pre = "''GPGGA,1,2,3,4,5,''" and c = "CHR ''0''" and post = "'',7,8,9''"
      and tail = "''4D''" and c' = "CHR ''1''"]
  note U = nmea_checksum_rejections [where fo = exact_ops and gd = no_gps_data
      and st = gps_after_init and body = ?body and ?h1.0 = "CHR ''4''" and ?d1.0 = 4
      and ?h2.0 = "CHR ''7''" and ?d2.0 = 7 and rest = "[]"]
  have nd: "hd (c_str ''GPGGA,1,2,3,4,5,0,7,8,9*4D'') \<noteq> CHR ''$''"
    by (simp add: c_str_def)
  have x: "xor_bytes ?body = 0x4D"
    by code_simp
  have hx: "hex_value CHR ''4'' = Some 4" "hex_value CHR ''7'' = Some 7"
    "hex_value CHR ''D'' = Some 13" "hex_value CHR ''E'' = Some 14"
    by (simp_all add: hex_value_def)
  have ok: "GPS_ValidateChecksum (Some ''$GPGGA,1,2,3,4,5,0,7,8,9*4D'')"
    by code_simp
  have r1: "GPS_ParseNMEA exact_ops (Some ''GPGGA,1,2,3,4,5,0,7,8,9*4D'') (Some no_gps_data) gps_after_init =
     Some (STATUS_ERROR, Some no_gps_data, gps_after_init)"
    using T nd by blast
  have r2: "GPS_ParseNMEA exact_ops (Some ''$GPGGA,1,2,3,4,5,0,7,8,9*47'') (Some no_gps_data) gps_after_init =
     Some (STATUS_ERROR, Some no_gps_data, gps_after_init)"
    using U x hx by simp
  have r3: "GPS_ParseNMEA exact_ops (Some ''$GPGGA,1,2,3,4,5,0,7,8,9*4E'') (Some no_gps_data) gps_after_init =
     Some (STATUS_ERROR, Some no_gps_data, gps_after_init)"
    using T ok hx by simp
  have r4: "GPS_ParseNMEA exact_ops (Some ''$GPGGA,1,2,3,4,5,1,7,8,9*4D'') (Some no_gps_data) gps_after_init =
     Some (STATUS_ERROR, Some no_gps_data, gps_after_init)"
    using T ok by simp
  from nd x ok r1 r2 r3 r4 show ?thesis by blast
qed


text \<open>
  The claim as the spec words it does not hold. A sentence with no hex digit after \<^verbatim>\<open>*\<close> is
  accepted when its bytes XOR to 0 (\<^verbatim>\<open>sscanf\<close> assigns nothing and the checksum variable
  keeps its initial 0); hex digits are read without regard to case, so \<^verbatim>\<open>4E\<close> altered to
  \<^verbatim>\<open>4e\<close> is still accepted; and a byte altered to \<^verbatim>\<open>*\<close> moves the end of the checked range,
  here so that the sentence is still accepted.
\<close>

theorem nmea_checksum_accepts_counterexample:
  "GPS_ParseNMEA exact_ops
     (Some ''$GPGGA,123519,4807.038,N,01131.000,E,0,00,0.9,545.4,M,46.9,M,,N*'')
     (Some no_gps_data) gps_after_init = Some (STATUS_OK, Some no_gps_data, gps_after_init) \<and>
   GPS_ParseNMEA exact_ops
     (Some ''$GPGGA,123519,4807.038,N,01131.000,E,0,00,0.9,545.4,M,46.9,M,,*4E'')
     (Some no_gps_data) gps_after_init = Some (STATUS_OK, Some no_gps_data, gps_after_init) \<and>
   GPS_ParseNMEA exact_ops
     (Some ''$GPGGA,123519,4807.038,N,01131.000,E,0,00,0.9,545.4,M,46.9,M,,*4e'')
     (Some no_gps_data) gps_after_init = Some (STATUS_OK, Some no_gps_data, gps_after_init) \<and>
   GPS_ParseNMEA exact_ops
     (Some ''$GPGGA,123519,4807.038,N,01131.000,E,0,00,0.9,545.4,M,46.9,M,,Nq00*71'')
     (Some no_gps_data) gps_after_init = Some (STATUS_OK, Some no_gps_data, gps_after_init) \<and>
   GPS_ParseNMEA exact_ops
     (Some ''$GPGGA,123519,4807.038,N,01131.000,E,0,00,0.9,545.4,M,46.9,M,,N*00*71'')
     (Some no_gps_data) gps_after_init = Some (STATUS_OK, Some no_gps_data, gps_after_init)"
  by code_simp


subsection \<open>Fields and tokens\<close>

text \<open>
  Where the first \<open>n\<close> comma-separated fields of a sentence are non-empty, the first \<open>n\<close>
  tokens that \<^verbatim>\<open>strtok\<close> returns are these fields.
\<close>

lemma take_filter_nonempty:
  "n \<le> length xs \<Longrightarrow> [] \<notin> set (take n xs) \<Longrightarrow> take n (filter (\<lambda>t. t \<noteq> []) xs) = take n xs"
proof (induction xs arbitrary: n)
  case Nil
  then show ?case by simp
next
  case (Cons x xs)
  show ?case
  proof (cases n)
    case 0
    then show ?thesis by simp
  next
    case (Suc m)
    with Cons.prems have "x \<noteq> []" "m \<le> length xs" "[] \<notin> set (take m xs)" by auto
    with Cons.IH [of m] Suc show ?thesis by simp
  qed
qed

lemma take_eq_nth: "take n xs = take n ys \<Longrightarrow> i < n \<Longrightarrow> xs ! i = ys ! i"
  by (metis nth_take)

lemma tokenize_leading_fields:
  assumes len: "length s < NMEA_BUFFER_SIZE - 1"
    and n: "10 \<le> length (comma_fields s)"
    and ne: "[] \<notin> set (take 10 (comma_fields s))"
  shows "\<exists>tokens. tokenize s = Some tokens \<and> 10 \<le> length tokens \<and>
           (\<forall>i<10. tokens ! i = comma_fields s ! i)"
proof -
  let ?ts = "take NMEA_MAX_TOKENS (strtok_commas s)"
  have tk: "tokenize s = Some ?ts"
    using len by (simp add: tokenize_def)
  have t10: "take 10 ?ts = take 10 (comma_fields s)"
    using take_filter_nonempty [OF n ne]
    by (simp add: NMEA_MAX_TOKENS_def strtok_commas_def)
  have "length (take 10 ?ts) = 10"
    using n by (simp only: t10) simp
  then have l: "10 \<le> length ?ts" by (simp add: NMEA_MAX_TOKENS_def)
  have "?ts ! i = comma_fields s ! i" if "i < 10" for i
    using t10 that by (rule take_eq_nth)
  with tk l show ?thesis by blast
qed

lemma atoi_zero: "atoi ''0'' = Some 0"
  by code_simp


subsection \<open>Claims about the result codes\<close>

lemma ParseNMEA_GGA_no_fix:
  assumes "GPS_ValidateChecksum (Some mem)"
    and "take 6 (c_str mem) = ''$GPGGA'' \<or> take 6 (c_str mem) = ''$GNGGA''"
    and "tokenize (c_str mem) = Some tokens" and "10 \<le> length tokens"
    and "atoi (tokens ! 6) = Some q" and "(of_int q :: u8) = 0"
  shows "GPS_ParseNMEA fo (Some mem) (Some gd) st =
     Some (STATUS_OK, Some (gd\<lparr>fix_quality := 0, valid := False\<rparr>), st\<lparr>gps_has_fix := False\<rparr>)"
  using assms by (auto simp: GPS_ParseNMEA_def GPS_ParseGPGGA_def Let_def)

lemma ParseNMEA_RMC_no_fix:
  assumes "GPS_ValidateChecksum (Some mem)"
    and "take 6 (c_str mem) = ''$GPRMC'' \<or> take 6 (c_str mem) = ''$GNRMC''"
    and "tokenize (c_str mem) = Some tokens" and "10 \<le> length tokens"
    and "hd (tokens ! 2) \<noteq> CHR ''A''"
  shows "GPS_ParseNMEA fo (Some mem) (Some gd) st =
     Some (STATUS_OK, Some (gd\<lparr>valid := False\<rparr>), st\<lparr>gps_has_fix := False\<rparr>)"
  using assms by (auto simp: GPS_ParseNMEA_def GPS_ParseGPRMC_def Let_def)

lemma ParseNMEA_unsupported:
  assumes "GPS_ValidateChecksum (Some mem)"
    and "take 6 (c_str mem) \<notin> {''$GPGGA'', ''$GNGGA'', ''$GPRMC'', ''$GNRMC''}"
  shows "GPS_ParseNMEA fo (Some mem) (Some gd) st = Some (STATUS_ERROR, Some gd, st)"
  using assms by (simp add: GPS_ParseNMEA_def)


text \<open>
  Claim C5, for the sentences whose leading fields are all present. The statement is about
  the comma-separated fields of the sentence, as the format comments of the parsers number
  them (\<^verbatim>\<open>$GPGGA,time,lat,N/S,lon,E/W,quality,...\<close> and \<^verbatim>\<open>$GPRMC,time,status,...\<close>). A
  checksum-valid position-fix sentence (\<^verbatim>\<open>$GPGGA\<close>, \<^verbatim>\<open>$GNGGA\<close>) shorter than 127 characters
  whose first ten fields are non-empty and whose fix-quality field, the seventh, is \<^verbatim>\<open>0\<close>
  returns \<^verbatim>\<open>STATUS_OK\<close> with \<open>valid = False\<close>, and so does a recommended-minimum sentence
  (\<^verbatim>\<open>$GPRMC\<close>, \<^verbatim>\<open>$GNRMC\<close>) whose first ten fields are non-empty and whose status field, the
  third, does not begin with \<^verbatim>\<open>A\<close>; no coordinate is written. A checksum failure and an
  unsupported sentence type both return \<^verbatim>\<open>STATUS_ERROR\<close> with the data and the driver
  state untouched: the caller can tell them from the no-fix result, not from one another.
  Nothing is said here of a sentence with an empty field among its first ten.
\<close>

theorem nmea_result_codes:
  "(GPS_ValidateChecksum (Some mem) \<and>
    (take 6 (c_str mem) = ''$GPGGA'' \<or> take 6 (c_str mem) = ''$GNGGA'') \<and>
    length (c_str mem) < NMEA_BUFFER_SIZE - 1 \<and>
    10 \<le> length (comma_fields (c_str mem)) \<and>
    [] \<notin> set (take 10 (comma_fields (c_str mem))) \<and>
    comma_fields (c_str mem) ! 6 = ''0'' \<longrightarrow>
      GPS_ParseNMEA fo (Some mem) (Some gd) st =
        Some (STATUS_OK, Some (gd\<lparr>fix_quality := 0, valid := False\<rparr>), st\<lparr>gps_has_fix := False\<rparr>)) \<and>
   (GPS_ValidateChecksum (Some mem) \<and>
    (take 6 (c_str mem) = ''$GPRMC'' \<or> take 6 (c_str mem) = ''$GNRMC'') \<and>
    length (c_str mem) < NMEA_BUFFER_SIZE - 1 \<and>
    10 \<le> length (comma_fields (c_str mem)) \<and>
    [] \<notin> set (take 10 (comma_fields (c_str mem))) \<and>
    hd (comma_fields (c_str mem) ! 2) \<noteq> CHR ''A'' \<longrightarrow>
      GPS_ParseNMEA fo (Some mem) (Some gd) st =
        Some (STATUS_OK, Some (gd\<lparr>valid := False\<rparr>), st\<lparr>gps_has_fix := False\<rparr>)) \<and>
   (\<not> GPS_ValidateChecksum (Some mem) \<longrightarrow>
      GPS_ParseNMEA fo (Some mem) (Some gd) st = Some (STATUS_ERROR, Some gd, st)) \<and>
   (GPS_ValidateChecksum (Some mem) \<and>
    take 6 (c_str mem) \<notin> {''$GPGGA'', ''$GNGGA'', ''$GPRMC'', ''$GNRMC''} \<longrightarrow>
      GPS_ParseNMEA fo (Some mem) (Some gd) st = Some (STATUS_ERROR, Some gd, st)) \<and>
   STATUS_ERROR \<noteq> STATUS_OK"
proof (intro conjI impI)
  assume a: "GPS_ValidateChecksum (Some mem) \<and>
    (take 6 (c_str mem) = ''$GPGGA'' \<or> take 6 (c_str mem) = ''$GNGGA'') \<and>
    length (c_str mem) < NMEA_BUFFER_SIZE - 1 \<and>
    10 \<le> length (comma_fields (c_str mem)) \<and>
    [] \<notin> set (take 10 (comma_fields (c_str mem))) \<and>
    comma_fields (c_str mem) ! 6 = ''0''"
  then obtain tokens where t: "tokenize (c_str mem) = Some tokens" "10 \<le> length tokens"
      "\<forall>i<10. tokens ! i = comma_fields (c_str mem) ! i"
    using tokenize_leading_fields [of "c_str mem"] by blast
  from t(3) a have "tokens ! 6 = ''0''" by simp
  then have "atoi (tokens ! 6) = Some 0" by (simp only: atoi_zero)
  with a t show "GPS_ParseNMEA fo (Some mem) (Some gd) st =
      Some (STATUS_OK, Some (gd\<lparr>fix_quality := 0, valid := False\<rparr>), st\<lparr>gps_has_fix := False\<rparr>)"
    by (intro ParseNMEA_GGA_no_fix [of mem tokens 0]) simp_all
next
  assume a: "GPS_ValidateChecksum (Some mem) \<and>
    (take 6 (c_str mem) = ''$GPRMC'' \<or> take 6 (c_str mem) = ''$GNRMC'') \<and>
    length (c_str mem) < NMEA_BUFFER_SIZE - 1 \<and>
    10 \<le> length (comma_fields (c_str mem)) \<and>
    [] \<notin> set (take 10 (comma_fields (c_str mem))) \<and>
    hd (comma_fields (c_str mem) ! 2) \<noteq> CHR ''A''"
  then obtain tokens where t: "tokenize (c_str mem) = Some tokens" "10 \<le> length tokens"
      "\<forall>i<10. tokens ! i = comma_fields (c_str mem) ! i"
    using tokenize_leading_fields [of "c_str mem"] by blast
  from t(3) a have "hd (tokens ! 2) \<noteq> CHR ''A''" by simp
  with a t show "GPS_ParseNMEA fo (Some mem) (Some gd) st =
      Some (STATUS_OK, Some (gd\<lparr>valid := False\<rparr>), st\<lparr>gps_has_fix := False\<rparr>)"
    by (intro ParseNMEA_RMC_no_fix [of mem tokens]) simp_all
next
  assume "\<not> GPS_ValidateChecksum (Some mem)"
  then show "GPS_ParseNMEA fo (Some mem) (Some gd) st = Some (STATUS_ERROR, Some gd, st)"
    by (rule ParseNMEA_rejects)
next
  assume "GPS_ValidateChecksum (Some mem) \<and>
    take 6 (c_str mem) \<notin> {''$GPGGA'', ''$GNGGA'', ''$GPRMC'', ''$GNRMC''}"
  then show "GPS_ParseNMEA fo (Some mem) (Some gd) st = Some (STATUS_ERROR, Some gd, st)"
    by (intro ParseNMEA_unsupported) simp_all
next
  show "STATUS_ERROR \<noteq> STATUS_OK" by simp
qed


text \<open>
  A GGA sentence with fix quality 0, an RMC sentence with status V, a GGA sentence with a
  wrong checksum, a GLL sentence.
\<close>

theorem nmea_result_codes_witness:
  "GPS_ValidateChecksum (Some ''$GPGGA,123519,4807.038,N,01131.000,E,0,08,0.9,545.4,M,46.9,M,,*46'') \<and>
   comma_fields ''$GPGGA,123519,4807.038,N,01131.000,E,0,08,0.9,545.4,M,46.9,M,,*46'' ! 6 = ''0'' \<and>
   GPS_ParseNMEA exact_ops (Some ''$GPGGA,123519,4807.038,N,01131.000,E,0,08,0.9,545.4,M,46.9,M,,*46'')
     (Some (no_gps_data\<lparr>gps_latitude := 48, valid := True\<rparr>)) (gps_after_init\<lparr>gps_has_fix := True\<rparr>) =
     Some (STATUS_OK, Some (no_gps_data\<lparr>gps_latitude := 48, valid := False\<rparr>), gps_after_init) \<and>
   GPS_ValidateChecksum (Some ''$GPRMC,123519,V,4807.038,N,01131.000,E,022.4,084.4,230394,003.1,W*7D'') \<and>
   comma_fields ''$GPRMC,123519,V,4807.038,N,01131.000,E,022.4,084.4,230394,003.1,W*7D'' ! 2 = ''V'' \<and>
   GPS_ParseNMEA exact_ops (Some ''$GPRMC,123519,V,4807.038,N,01131.000,E,022.4,084.4,230394,003.1,W*7D'')
     (Some (no_gps_data\<lparr>gps_latitude := 48, valid := True\<rparr>)) (gps_after_init\<lparr>gps_has_fix := True\<rparr>) =
     Some (STATUS_OK, Some (no_gps_data\<lparr>gps_latitude := 48, valid := False\<rparr>), gps_after_init) \<and>
   \<not> GPS_ValidateChecksum (Some ''$GPGGA,123519,4807.038,N,01131.000,E,0,08,0.9,545.4,M,46.9,M,,*47'') \<and>
   GPS_ParseNMEA exact_ops (Some ''$GPGGA,123519,4807.038,N,01131.000,E,0,08,0.9,545.4,M,46.9,M,,*47'')
     (Some no_gps_data) gps_after_init = Some (STATUS_ERROR, Some no_gps_data, gps_after_init) \<and>
   GPS_ValidateChecksum (Some ''$GPGLL,4916.45,N,12311.12,W,225444,A*31'') \<and>
   GPS_ParseNMEA exact_ops (Some ''$GPGLL,4916.45,N,12311.12,W,225444,A*31'')
     (Some no_gps_data) gps_after_init = Some (STATUS_ERROR, Some no_gps_data, gps_after_init)"
proof -
  let ?gga = "''$GPGGA,123519,4807.038,N,01131.000,E,0,08,0.9,545.4,M,46.9,M,,*46''"
  let ?rmc = "''$GPRMC,123519,V,4807.038,N,01131.000,E,022.4,084.4,230394,003.1,W*7D''"
  let ?bad = "''$GPGGA,123519,4807.038,N,01131.000,E,0,08,0.9,545.4,M,46.9,M,,*47''"
  let ?gll = "''$GPGLL,4916.45,N,12311.12,W,225444,A*31''"
  let ?gd = "no_gps_data\<lparr>gps_latitude := 48, valid := True\<rparr>"
  let ?st = "gps_after_init\<lparr>gps_has_fix := True\<rparr>"
  have c1: "c_str ?gga = ?gga" by (simp add: c_str_def)
  have v1: "GPS_ValidateChecksum (Some ?gga)" by code_simp
  have p1: "take 6 ?gga = ''$GPGGA''" by simp
  have l1: "length ?gga < NMEA_BUFFER_SIZE - 1" by (simp add: NMEA_BUFFER_SIZE_def)
  have f1: "comma_fields ?gga = [''$GPGGA'', ''123519'', ''4807.038'', ''N'', ''01131.000'',
      ''E'', ''0'', ''08'', ''0.9'', ''545.4'', ''M'', ''46.9'', ''M'', [], ''*46'']"
    by code_simp
  have c2: "c_str ?rmc = ?rmc" by (simp add: c_str_def)
  have v2: "GPS_ValidateChecksum (Some ?rmc)" by code_simp
  have p2: "take 6 ?rmc = ''$GPRMC''" by simp
  have l2: "length ?rmc < NMEA_BUFFER_SIZE - 1" by (simp add: NMEA_BUFFER_SIZE_def)
  have f2: "comma_fields ?rmc = [''$GPRMC'', ''123519'', ''V'', ''4807.038'', ''N'',
      ''01131.000'', ''E'', ''022.4'', ''084.4'', ''230394'', ''003.1'', ''W*7D'']"
    by code_simp
  have v3: "\<not> GPS_ValidateChecksum (Some ?bad)" by code_simp
  have v4: "GPS_ValidateChecksum (Some ?gll)" by code_simp
  have p4: "take 6 (c_str ?gll) \<notin> {''$GPGGA'', ''$GNGGA'', ''$GPRMC'', ''$GNRMC''}"
    by (simp add: c_str_def)
  have q1: "comma_fields ?gga ! 6 = ''0''" by (simp only: f1) simp
  have q2: "comma_fields ?rmc ! 2 = ''V''" by (simp only: f2) simp
  have h1: "10 \<le> length (comma_fields ?gga)" "[] \<notin> set (take 10 (comma_fields ?gga))"
    by (simp_all only: f1) simp_all
  have h2: "10 \<le> length (comma_fields ?rmc)" "[] \<notin> set (take 10 (comma_fields ?rmc))"
    "hd (comma_fields ?rmc ! 2) \<noteq> CHR ''A''"
    by (simp_all only: f2) simp_all
  have r1: "GPS_ParseNMEA exact_ops (Some ?gga) (Some ?gd) ?st =
      Some (STATUS_OK, Some (?gd\<lparr>fix_quality := 0, valid := False\<rparr>), ?st\<lparr>gps_has_fix := False\<rparr>)"
    using nmea_result_codes [where mem = ?gga and fo = exact_ops and gd = ?gd and st = ?st]
      v1 p1 l1 h1 q1 unfolding c1 by blast
  have r2: "GPS_ParseNMEA exact_ops (Some ?rmc) (Some ?gd) ?st =
      Some (STATUS_OK, Some (?gd\<lparr>valid := False\<rparr>), ?st\<lparr>gps_has_fix := False\<rparr>)"
    using nmea_result_codes [where mem = ?rmc and fo = exact_ops and gd = ?gd and st = ?st]
      v2 p2 l2 h2 unfolding c2 by blast
  have r3: "GPS_ParseNMEA exact_ops (Some ?bad) (Some no_gps_data) gps_after_init =
      Some (STATUS_ERROR, Some no_gps_data, gps_after_init)"
    using nmea_result_codes [where mem = ?bad and fo = exact_ops and gd = no_gps_data
        and st = gps_after_init] v3 by blast
  have r4: "GPS_ParseNMEA exact_ops (Some ?gll) (Some no_gps_data) gps_after_init =
      Some (STATUS_ERROR, Some no_gps_data, gps_after_init)"
    using nmea_result_codes [where mem = ?gll and fo = exact_ops and gd = no_gps_data
        and st = gps_after_init] v4 p4 by blast
  have e1: "?gd\<lparr>fix_quality := 0, valid := False\<rparr> = no_gps_data\<lparr>gps_latitude := 48, valid := False\<rparr>"
    by (simp add: no_gps_data_def)
  have e2: "?gd\<lparr>valid := False\<rparr> = no_gps_data\<lparr>gps_latitude := 48, valid := False\<rparr>"
    by simp
  have e3: "?st\<lparr>gps_has_fix := False\<rparr> = gps_after_init"
    by (simp add: gps_after_init_def)
  from v1 v2 v3 v4 q1 q2 r1 r2 r3 r4 show ?thesis
    unfolding e1 e2 e3 by blast
qed

text \<open>
  The claim as the spec words it does not hold: an unsupported sentence and a sentence with
  a wrong checksum give the same result, \<^verbatim>\<open>STATUS_ERROR\<close> with nothing written, so the
  caller cannot tell one from the other.
\<close>

theorem nmea_result_codes_counterexample:
  "GPS_ValidateChecksum (Some ''$GPGLL,4916.45,N,12311.12,W,225444,A*31'') \<and>
   \<not> GPS_ValidateChecksum (Some ''$GPGGA,123519,4807.038,N,01131.000,E,0,08,0.9,545.4,M,46.9,M,,*47'') \<and>
   GPS_ParseNMEA exact_ops (Some ''$GPGLL,4916.45,N,12311.12,W,225444,A*31'')
     (Some no_gps_data) gps_after_init = Some (STATUS_ERROR, Some no_gps_data, gps_after_init) \<and>
   GPS_ParseNMEA exact_ops (Some ''$GPGGA,123519,4807.038,N,01131.000,E,0,08,0.9,545.4,M,46.9,M,,*47'')
     (Some no_gps_data) gps_after_init = Some (STATUS_ERROR, Some no_gps_data, gps_after_init)"
  by code_simp


subsection \<open>Sentences with an empty field\<close>

text \<open>
  \<^verbatim>\<open>strtok\<close> skips an empty field, so behind one the index of a token is no longer the
  index of its field, against the format comments of the parsers. Three checksum-valid GGA
  sentences show it. With no fix and the position fields empty, as receivers send it, six
  tokens remain and the sentence is rejected. With the time empty and fix quality 1, the
  parser reads the satellite count \<^verbatim>\<open>00\<close> as the fix quality and reports no fix. With the
  time empty and fix quality 0, it reads the satellite count \<^verbatim>\<open>08\<close> as the fix quality
  and reports a valid fix. The theorem on the result codes above leaves these sentences out.
\<close>

lemma empty_field_shifts_tokens:
  "GPS_ValidateChecksum (Some ''$GPGGA,123519,,,,,0,00,99.99,,,,,,*45'') \<and>
   GPS_ParseNMEA exact_ops (Some ''$GPGGA,123519,,,,,0,00,99.99,,,,,,*45'')
     (Some no_gps_data) gps_after_init = Some (STATUS_ERROR, Some no_gps_data, gps_after_init) \<and>
   GPS_ValidateChecksum (Some ''$GPGGA,,4807.038,N,01131.000,E,1,00,0.9,545.4,M,46.9,M,,*42'') \<and>
   comma_fields ''$GPGGA,,4807.038,N,01131.000,E,1,00,0.9,545.4,M,46.9,M,,*42'' ! 6 = ''1'' \<and>
   GPS_ParseNMEA exact_ops (Some ''$GPGGA,,4807.038,N,01131.000,E,1,00,0.9,545.4,M,46.9,M,,*42'')
     (Some (no_gps_data\<lparr>valid := True\<rparr>)) (gps_after_init\<lparr>gps_has_fix := True\<rparr>) =
     Some (STATUS_OK, Some no_gps_data, gps_after_init) \<and>
   GPS_ValidateChecksum (Some ''$GPGGA,,4807.038,N,01131.000,E,0,08,0.9,545.4,M,46.9,M,,*4B'') \<and>
   comma_fields ''$GPGGA,,4807.038,N,01131.000,E,0,08,0.9,545.4,M,46.9,M,,*4B'' ! 6 = ''0'' \<and>
   map_option (\<lambda>(status, g, st). (status, map_option valid g, map_option fix_quality g, gps_has_fix st))
     (GPS_ParseNMEA exact_ops (Some ''$GPGGA,,4807.038,N,01131.000,E,0,08,0.9,545.4,M,46.9,M,,*4B'')
        (Some no_gps_data) gps_after_init) =
     Some (STATUS_OK, Some True, Some 8, True)"
  by code_simp

section \<open>Proofs: coordinate conversion\<close>

subsection \<open>Rounding to nearest\<close>

text \<open>
  Known values: one tenth in binary32 and in binary64, one third in binary32, and two ties,
  each going to the even significand.
\<close>

lemma round_to_examples:
  "round_to 24 (1 / 10) = 13421773 / 134217728 \<and>
   round_to 53 (1 / 10) = 3602879701896397 / 36028797018963968 \<and>
   round_to 24 (1 / 3) = 11184811 / 33554432 \<and>
   round_to 24 (3 / 2 + 1 / 2 ^ 24) = 3 / 2 \<and>
   round_to 24 (1 + 3 / 2 ^ 24) = 1 + 1 / 2 ^ 22"
  by code_simp

text \<open>
  The exponent, the error of half a unit in the last place, and the order with respect to
  the integers that have an exact representation.
\<close>

lemma expo_bounds:
  assumes "0 < a"
  shows "2 powi (expo a) \<le> a \<and> a < 2 powi (expo a + 1)"
proof (cases "1 \<le> a")
  case True
  define m where "m = \<lfloor>a\<rfloor>"
  have m: "0 < m" "of_int m \<le> a" "a < of_int m + 1"
    using True by (auto simp: m_def) linarith+
  from bitlen_bounds [OF m(1)]
  have b1: "2 ^ nat (bitlen m - 1) \<le> m" and b2: "m < 2 ^ nat (bitlen m)" by auto
  have bl: "1 \<le> bitlen m"
    using m(1) bitlen_eq_zero_iff [of m] bitlen_nonneg [of m] by linarith
  have e: "expo a = bitlen m - 1"
    using True by (simp add: expo_def m_def)
  have "(2::rat) powi (bitlen m - 1) = of_int (2 ^ nat (bitlen m - 1))"
    using bl by (simp add: power_int_nonneg_exp)
  also have "\<dots> \<le> of_int m" using b1 by (simp only: of_int_le_iff)
  finally have lo: "2 powi (expo a) \<le> a" using m(2) e by simp
  have "m + 1 \<le> 2 ^ nat (bitlen m)" using b2 by simp
  then have "(of_int (m + 1) :: rat) \<le> of_int (2 ^ nat (bitlen m))"
    by (simp only: of_int_le_iff)
  moreover have "(2::rat) powi (bitlen m - 1 + 1) = of_int (2 ^ nat (bitlen m))"
    using bl by (simp add: power_int_nonneg_exp)
  ultimately have hi: "a < 2 powi (expo a + 1)" using m(3) e by simp
  from lo hi show ?thesis ..
next
  case False
  define y where "y = 1 / a"
  define k where "k = \<lceil>y\<rceil> - 1"
  have y: "1 < y" using False assms by (simp add: y_def)
  have k: "0 < k" "of_int k < y" "y \<le> of_int k + 1"
    using y by (auto simp: k_def) linarith+
  from bitlen_bounds [OF k(1)]
  have b1: "2 ^ nat (bitlen k - 1) \<le> k" and b2: "k < 2 ^ nat (bitlen k)" by auto
  have bl: "1 \<le> bitlen k"
    using k(1) bitlen_eq_zero_iff [of k] bitlen_nonneg [of k] by linarith
  have e: "expo a = - bitlen k"
    using False by (simp add: expo_def k_def y_def)
  have a: "a = 1 / y" using assms by (simp add: y_def)
  have "k + 1 \<le> 2 ^ nat (bitlen k)" using b2 by simp
  then have "(of_int (k + 1) :: rat) \<le> of_int (2 ^ nat (bitlen k))"
    by (simp only: of_int_le_iff)
  then have y2: "y \<le> 2 ^ nat (bitlen k)" using k(3) by simp
  have p1: "(2::rat) powi (- bitlen k) = 1 / 2 ^ nat (bitlen k)"
    using bl by (simp add: power_int_minus_divide power_int_nonneg_exp)
  have "(2::rat) powi (- bitlen k) \<le> 1 / y"
    unfolding p1 using y y2 by (simp add: field_simps)
  then have lo: "2 powi (expo a) \<le> a"
    using e a by simp
  have "(2::rat) ^ nat (bitlen k - 1) = of_int (2 ^ nat (bitlen k - 1))" by simp
  also have "\<dots> \<le> of_int k" using b1 by (simp only: of_int_le_iff)
  also have "\<dots> < y" by (rule k(2))
  finally have y1: "2 ^ nat (bitlen k - 1) < y" .
  have p2: "(2::rat) powi (- bitlen k + 1) = 1 / 2 ^ nat (bitlen k - 1)"
  proof -
    have "- bitlen k + 1 = - (bitlen k - 1)" by simp
    then show ?thesis
      using bl by (simp only: power_int_minus_divide) (simp add: power_int_nonneg_exp)
  qed
  have "1 / y < (2::rat) powi (- bitlen k + 1)"
    unfolding p2 using y y1 by (simp add: field_simps)
  then have hi: "a < 2 powi (expo a + 1)"
    using e a by simp
  from lo hi show ?thesis ..
qed

lemma round_even_cases:
  obtains "round_even x = \<lfloor>x\<rfloor>" and "x - of_int \<lfloor>x\<rfloor> \<le> 1 / 2"
  | "round_even x = \<lfloor>x\<rfloor> + 1" and "1 / 2 \<le> x - of_int \<lfloor>x\<rfloor>"
  unfolding round_even_def Let_def
  by (cases "x - of_int \<lfloor>x\<rfloor> < 1 / 2"; cases "1 / 2 < x - of_int \<lfloor>x\<rfloor>"; cases "even \<lfloor>x\<rfloor>") auto

lemma round_even_error: "\<bar>of_int (round_even x) - x\<bar> \<le> 1 / 2"
proof -
  have f: "of_int \<lfloor>x\<rfloor> \<le> x" "x < of_int \<lfloor>x\<rfloor> + 1" by linarith+
  show ?thesis
  proof (cases x rule: round_even_cases)
    case 1
    with f show ?thesis by (simp add: abs_le_iff)
  next
    case 2
    with f show ?thesis by (simp add: abs_le_iff)
  qed
qed

lemma round_even_ge: "of_int n \<le> x \<Longrightarrow> n \<le> round_even x"
proof -
  assume "of_int n \<le> x"
  then have "n \<le> \<lfloor>x\<rfloor>" by (simp add: le_floor_iff)
  then show ?thesis by (cases x rule: round_even_cases) simp_all
qed

lemma round_even_le: "x \<le> of_int n \<Longrightarrow> round_even x \<le> n"
proof -
  assume a: "x \<le> of_int n"
  have f: "\<lfloor>x\<rfloor> \<le> n" using a by (simp add: floor_le_iff)
  show ?thesis
  proof (cases "\<lfloor>x\<rfloor> = n")
    case True
    have "of_int \<lfloor>x\<rfloor> \<le> x" by linarith
    with True a have "x - of_int \<lfloor>x\<rfloor> = 0" by simp
    with True show ?thesis by (cases x rule: round_even_cases) simp_all
  next
    case False
    with f have "\<lfloor>x\<rfloor> + 1 \<le> n" by simp
    then show ?thesis by (cases x rule: round_even_cases) simp_all
  qed
qed

lemma ulp_pos: "0 < (2::rat) powi n"
  by simp

lemma powi_split: "(2::rat) powi (a + b) = 2 powi a * 2 powi b"
  by (rule power_int_add) simp

lemma ulp_times: "(2::rat) powi (e - (int p - 1)) * 2 ^ p = 2 * 2 powi e"
proof -
  have "(2::rat) powi (e - (int p - 1)) * 2 ^ p = 2 powi (e - (int p - 1)) * 2 powi (int p)"
    by simp
  also have "\<dots> = 2 powi (e - (int p - 1) + int p)"
    by (simp only: powi_split)
  also have "e - (int p - 1) + int p = 1 + e" by simp
  also have "(2::rat) powi (1 + e) = 2 * 2 powi e"
    by (simp only: powi_split) simp
  finally show ?thesis .
qed

lemma round_to_error: "\<bar>round_to p x - x\<bar> \<le> \<bar>x\<bar> / 2 ^ p"
proof (cases "x = 0")
  case True
  then show ?thesis by (simp add: round_to_def)
next
  case False
  define e where "e = expo \<bar>x\<bar>"
  define u where "u = (2::rat) powi (e - (int p - 1))"
  have u: "0 < u" by (simp add: u_def)
  have r: "round_to p x = of_int (round_even (x / u)) * u"
    using False by (simp add: round_to_def Let_def e_def u_def)
  have "round_to p x - x = (of_int (round_even (x / u)) - x / u) * u"
    using u by (simp add: r field_simps)
  then have "\<bar>round_to p x - x\<bar> = \<bar>of_int (round_even (x / u)) - x / u\<bar> * u"
    using u by (simp add: abs_mult)
  also have "\<dots> \<le> 1 / 2 * u"
    using round_even_error [of "x / u"] u by (intro mult_right_mono) simp_all
  finally have 1: "\<bar>round_to p x - x\<bar> \<le> u / 2" by simp
  have "0 < \<bar>x\<bar>" using False by simp
  from expo_bounds [OF this] have "2 powi e \<le> \<bar>x\<bar>" by (simp add: e_def)
  moreover have "u * 2 ^ p = 2 * 2 powi e"
    unfolding u_def by (rule ulp_times)
  ultimately have "u * 2 ^ p \<le> 2 * \<bar>x\<bar>" by simp
  then have "u / 2 \<le> \<bar>x\<bar> / 2 ^ p" by (simp add: field_simps)
  with 1 show ?thesis by linarith
qed

lemma round_to_error_bound:
  assumes "\<bar>x\<bar> \<le> B"
  shows "\<bar>round_to p x - x\<bar> \<le> B / 2 ^ p"
proof -
  have "\<bar>x\<bar> / 2 ^ p \<le> B / 2 ^ p"
    using assms by (simp add: divide_right_mono)
  with round_to_error [of p x] show ?thesis by linarith
qed

lemma round_to_ge_int:
  assumes kx: "of_int k \<le> x" and k: "\<bar>k\<bar> < 2 ^ p" and p: "0 < p"
  shows "of_int k \<le> round_to p x"
proof (cases "x = 0")
  case True
  with kx show ?thesis by (simp add: round_to_def)
next
  case False
  define e where "e = expo \<bar>x\<bar>"
  define u where "u = (2::rat) powi (e - (int p - 1))"
  have u: "0 < u" by (simp add: u_def)
  have r: "round_to p x = of_int (round_even (x / u)) * u"
    using False by (simp add: round_to_def Let_def e_def u_def)
  have "0 < \<bar>x\<bar>" using False by simp
  from expo_bounds [OF this] have ex: "2 powi e \<le> \<bar>x\<bar>" by (simp add: e_def)
  show ?thesis
  proof (cases "e \<le> int p - 1")
    case True
    define N :: int where "N = 2 ^ nat (int p - 1 - e)"
    have "(of_int N :: rat) = 2 powi (int p - 1 - e)"
      using True by (simp add: N_def power_int_nonneg_exp)
    then have "u * of_int N = 2 powi (e - (int p - 1) + (int p - 1 - e))"
      by (simp only: u_def powi_split)
    then have uN: "u * of_int N = 1" by simp
    then have N: "(of_int N :: rat) = 1 / u" using u by (simp add: field_simps)
    have "of_int (k * N) = of_int k / u" by (simp add: N)
    also have "\<dots> \<le> x / u" using kx u by (simp add: divide_right_mono)
    finally have "k * N \<le> round_even (x / u)" by (rule round_even_ge)
    then have "(of_int (k * N) :: rat) \<le> of_int (round_even (x / u))"
      by (simp only: of_int_le_iff)
    then have "of_int (k * N) * u \<le> of_int (round_even (x / u)) * u"
      using u by (intro mult_right_mono) simp_all
    moreover have "of_int (k * N) * u = of_int k"
    proof -
      have "of_int (k * N) * u = of_int k * (u * of_int N)" by (simp add: ac_simps)
      then show ?thesis by (simp only: uN mult_1_right)
    qed
    ultimately show ?thesis by (simp only: r)
  next
    case False
    then have ep: "int p \<le> e" by simp
    have "(2::rat) ^ p = 2 powi (int p)" by simp
    also have "\<dots> \<le> 2 powi e" using ep by (intro power_int_increasing) simp_all
    finally have big: "2 ^ p \<le> \<bar>x\<bar>" using ex by linarith
    have kr: "\<bar>of_int k :: rat\<bar> < 2 ^ p"
    proof -
      have "(of_int \<bar>k\<bar> :: rat) < of_int (2 ^ p)" using k by (simp only: of_int_less_iff)
      then show ?thesis by simp
    qed
    have xpos: "0 < x" using big kr kx by linarith
    define M :: int where "M = 2 ^ (p - 1)"
    have "(of_int M :: rat) = 2 powi (int p - 1)"
      using p by (simp add: M_def power_int_nonneg_exp nat_diff_distrib)
    then have "u * of_int M = 2 powi (e - (int p - 1) + (int p - 1))"
      by (simp only: u_def powi_split)
    then have uM: "u * of_int M = 2 powi e" by simp
    then have "of_int M = 2 powi e / u" using u by (simp add: field_simps)
    also have "\<dots> \<le> x / u" using ex xpos u by (simp add: divide_right_mono)
    finally have "M \<le> round_even (x / u)" by (rule round_even_ge)
    then have "(of_int M :: rat) \<le> of_int (round_even (x / u))"
      by (simp only: of_int_le_iff)
    then have "of_int M * u \<le> of_int (round_even (x / u)) * u"
      using u by (intro mult_right_mono) simp_all
    then have "2 powi e \<le> round_to p x"
      using uM by (simp add: r mult.commute)
    moreover have "(2::rat) ^ p \<le> 2 powi e"
    proof -
      have "(2::rat) ^ p = 2 powi (int p)" by simp
      also have "\<dots> \<le> 2 powi e" using ep by (intro power_int_increasing) simp_all
      finally show ?thesis .
    qed
    ultimately show ?thesis using kr by linarith
  qed
qed

lemma round_even_minus: "round_even (- x) = - round_even x"
proof -
  have f: "of_int \<lfloor>x\<rfloor> \<le> x" "x < of_int \<lfloor>x\<rfloor> + 1" by linarith+
  show ?thesis
  proof (cases "x = of_int \<lfloor>x\<rfloor>")
    case True
    then obtain n where "x = of_int n" ..
    then show ?thesis by (simp add: round_even_def del: of_int_minus add: of_int_minus [symmetric])
  next
    case False
    have "of_int \<lfloor>x\<rfloor> < x" by (metis False f(1) order_le_less)
    then have "\<lfloor>- x\<rfloor> = - \<lfloor>x\<rfloor> - 1"
      using f by (intro floor_unique) auto
    then show ?thesis
      unfolding round_even_def Let_def using f by auto
  qed
qed

lemma round_to_minus: "round_to p (- x) = - round_to p x"
  by (simp add: round_to_def Let_def round_even_minus)

lemma round_to_le_int:
  assumes kx: "x \<le> of_int k" and k: "\<bar>k\<bar> < 2 ^ p" and p: "0 < p"
  shows "round_to p x \<le> of_int k"
proof -
  have "of_int (- k) \<le> round_to p (- x)"
    using kx k p by (intro round_to_ge_int) simp_all
  then show ?thesis by (simp add: round_to_minus)
qed

lemma round_to_int:
  assumes "\<bar>k\<bar> < 2 ^ p" and "0 < p"
  shows "round_to p (of_int k) = of_int k"
  using round_to_ge_int [of k "of_int k" p] round_to_le_int [of "of_int k" k p] assms
  by simp

subsection \<open>The value of a coordinate string\<close>

lemma digits_value_snoc:
  "digits_value (ds @ [c]) = 10 * digits_value ds + (int (of_char c) - 48)"
  by (simp add: digits_value_def)

lemma digits_value_bounds:
  "list_all isdigit ds \<Longrightarrow> 0 \<le> digits_value ds \<and> digits_value ds < 10 ^ length ds"
proof (induction ds rule: rev_induct)
  case Nil
  then show ?case by (simp add: digits_value_def)
next
  case (snoc c ds)
  then have ih: "0 \<le> digits_value ds" "digits_value ds < 10 ^ length ds" by simp_all
  from snoc.prems have "isdigit c" by simp
  then have c: "0 \<le> int (of_char c) - 48" "int (of_char c) - 48 \<le> 9"
    by (simp_all add: isdigit_def)
  from ih(2) have "digits_value ds + 1 \<le> 10 ^ length ds" by simp
  then have "10 * (digits_value ds + 1) \<le> 10 * 10 ^ length ds" by (simp only: mult_le_cancel_left_pos)
  with ih c show ?case by (simp add: digits_value_snoc)
qed

lemma list_all_takeWhile: "list_all P (takeWhile P xs)"
  by (induction xs) simp_all

lemma isdigit_plain: "isdigit c \<Longrightarrow> \<not> isspace c \<and> c \<noteq> CHR ''-'' \<and> c \<noteq> CHR ''+''"
  by (auto simp: isdigit_def isspace_def)

lemma decimal_value_digits:
  assumes "s \<noteq> []" and "isdigit (hd s)"
  shows "decimal_value s =
     of_int (digits_value (takeWhile isdigit s)) +
     of_int (digits_value (if dropWhile isdigit s \<noteq> [] \<and> hd (dropWhile isdigit s) = CHR ''.''
                           then takeWhile isdigit (tl (dropWhile isdigit s)) else [])) /
     10 ^ length (if dropWhile isdigit s \<noteq> [] \<and> hd (dropWhile isdigit s) = CHR ''.''
                  then takeWhile isdigit (tl (dropWhile isdigit s)) else [])"
proof -
  obtain c cs where s: "s = c # cs" using assms(1) by (cases s) auto
  with assms(2) have c: "isdigit c" by simp
  from isdigit_plain [OF c] have "dropWhile isspace s = s" by (simp add: s)
  then show ?thesis
    using isdigit_plain [OF c] unfolding decimal_value_def Let_def by (simp add: s)
qed

lemma fraction_bounds:
  assumes "list_all isdigit fp"
  shows "0 \<le> (of_int (digits_value fp) :: rat) / 10 ^ length fp \<and>
         (of_int (digits_value fp) :: rat) / 10 ^ length fp < 1"
proof -
  from digits_value_bounds [OF assms]
  have b: "0 \<le> digits_value fp" "digits_value fp < 10 ^ length fp" by simp_all
  have "(of_int (digits_value fp) :: rat) < of_int (10 ^ length fp)"
    using b(2) by (simp only: of_int_less_iff)
  then have "(of_int (digits_value fp) :: rat) < 10 ^ length fp" by simp
  with b(1) show ?thesis by simp
qed

lemma coord_form_value:
  assumes "coord_form s"
  shows "0 \<le> decimal_value s \<and> decimal_value s < 100000"
proof -
  define ip where "ip = takeWhile isdigit s"
  define fp where "fp = (if dropWhile isdigit s \<noteq> [] \<and> hd (dropWhile isdigit s) = CHR ''.''
                           then takeWhile isdigit (tl (dropWhile isdigit s)) else [])"
  from assms have len: "length ip = 4 \<or> length ip = 5"
    by (simp add: coord_form_def Let_def ip_def)
  then have "ip \<noteq> []" by auto
  then have s: "s \<noteq> []" "isdigit (hd s)"
    unfolding ip_def by (cases s; simp split: if_splits)+
  have v: "decimal_value s = of_int (digits_value ip) + of_int (digits_value fp) / 10 ^ length fp"
    unfolding ip_def fp_def by (rule decimal_value_digits [OF s])
  have "list_all isdigit ip" unfolding ip_def by (rule list_all_takeWhile)
  from digits_value_bounds [OF this]
  have i: "0 \<le> digits_value ip" "digits_value ip < 10 ^ length ip" by simp_all
  have "digits_value ip < 10 ^ 5"
    using i(2) len by auto
  then have "digits_value ip \<le> 99999" by simp
  then have "(of_int (digits_value ip) :: rat) \<le> of_int 99999" by (simp only: of_int_le_iff)
  then have i2: "(of_int (digits_value ip) :: rat) \<le> 99999" by simp
  have i1: "0 \<le> (of_int (digits_value ip) :: rat)" using i(1) by simp
  have "list_all isdigit fp" unfolding fp_def by (simp add: list_all_takeWhile)
  from fraction_bounds [OF this] i1 i2 show ?thesis unfolding v by linarith
qed

lemma convert_sign:
  "GPS_ConvertCoordinate fo (Some s) (Some dir) =
     (if dir \<noteq> [] \<and> (hd dir = CHR ''S'' \<or> hd dir = CHR ''W'')
      then fl_neg fo (GPS_ConvertCoordinate fo (Some s) (Some ''N''))
      else GPS_ConvertCoordinate fo (Some s) (Some ''N''))"
  by (simp add: GPS_ConvertCoordinate_def Let_def)

lemma convert_exact:
  assumes "0 \<le> decimal_value s"
  shows "GPS_ConvertCoordinate exact_ops (Some s) (Some ''N'') = decimal_degrees_ref (decimal_value s)"
  using assms by (simp add: GPS_ConvertCoordinate_def exact_ops_def Let_def decimal_degrees_ref_def)

subsection \<open>The error of the conversion in binary32\<close>

lemma abs_le_lower: "\<bar>x\<bar> \<le> e \<Longrightarrow> - e \<le> (x::rat)"
  by linarith

lemma abs_le_upper: "\<bar>x\<bar> \<le> e \<Longrightarrow> x \<le> (e::rat)"
  by linarith

lemma abs_leI: "- e \<le> x \<Longrightarrow> x \<le> e \<Longrightarrow> \<bar>x\<bar> \<le> (e::rat)"
  by linarith

lemma round_to_24_error:
  assumes "\<bar>x\<bar> \<le> B"
  shows "\<bar>round_to 24 x - x\<bar> \<le> B / 16777216"
  using round_to_error_bound [OF assms, of 24] by simp

lemma round_to_53_error:
  assumes "\<bar>x\<bar> \<le> B"
  shows "\<bar>round_to 53 x - x\<bar> \<le> B / 9007199254740992"
  using round_to_error_bound [OF assms, of 53] by simp

text \<open>
  The steps of \<^verbatim>\<open>GPS_ConvertCoordinate\<close> in binary32, for a value \<open>v\<close> below 100000 whose
  minutes are below 60, with \<open>D = \<lfloor>v / 100\<rfloor>\<close>: \<^verbatim>\<open>atof\<close> and the conversion to \<^verbatim>\<open>float\<close> keep
  the coordinate between \<open>100 * D\<close> and \<open>100 * D + 60\<close>, both of them \<^verbatim>\<open>float\<close> numbers, so
  the quotient by 100 lies between \<open>D\<close> and \<open>D + 1\<close> and the cast gives \<open>D\<close>; \<open>D\<close>, \<open>100 * D\<close>
  and 60 are exact; what remains is the rounding error of five operations.
\<close>

lemma convert_ieee_bound:
  assumes v0: "0 \<le> decimal_value s" and v1: "decimal_value s < 100000"
    and m60: "minutes_ref (decimal_value s) < 60"
  shows "\<bar>GPS_ConvertCoordinate ieee_ops (Some s) (Some ''N'') -
          decimal_degrees_ref (decimal_value s)\<bar> \<le> 1 / 1000"
proof -
  define v where "v = decimal_value s"
  define D where "D = \<lfloor>v / 100\<rfloor>"
  define a where "a = round_to 53 v"
  define c where "c = round_to 24 a"
  define q where "q = round_to 24 (c / 100)"
  define m where "m = round_to 24 (c - of_int D * 100)"
  define t where "t = round_to 24 (m / 60)"
  define r where "r = round_to 24 (of_int D + t)"
  have v: "0 \<le> v" "v < 100000" using v0 v1 by (simp_all add: v_def)
  have "of_int D \<le> v / 100" "v / 100 < of_int D + 1"
    unfolding D_def by linarith+
  then have vD: "of_int D * 100 \<le> v" "v < of_int D * 100 + 100" by simp_all
  have vhi: "v < of_int D * 100 + 60"
    using m60 by (simp add: minutes_ref_def v_def [symmetric] D_def [symmetric])
  have D0: "0 \<le> D" using v(1) by (simp add: D_def)
  have "v / 100 < 1000" using v(2) by simp
  then have "D < 1000" unfolding D_def by (simp add: floor_less_iff)
  then have D1: "D \<le> 999" by simp
  have Dr: "0 \<le> (of_int D :: rat)" "(of_int D :: rat) \<le> 999"
    using D0 D1 by simp_all
  have k1: "\<bar>D * 100\<bar> < 2 ^ 53" "\<bar>D * 100 + 60\<bar> < 2 ^ 53"
    "\<bar>D * 100\<bar> < 2 ^ 24" "\<bar>D * 100 + 60\<bar> < 2 ^ 24" "\<bar>D\<bar> < 2 ^ 24"
    using D0 D1 by simp_all
  have a_lo: "of_int (D * 100) \<le> a"
    unfolding a_def using vD(1) k1(1) by (intro round_to_ge_int) simp_all
  have a_hi: "a \<le> of_int (D * 100 + 60)"
    unfolding a_def using vhi k1(2) by (intro round_to_le_int) simp_all
  have a_err: "\<bar>a - v\<bar> \<le> 100000 / 9007199254740992"
    unfolding a_def using v by (intro round_to_53_error) simp
  have c_lo: "of_int (D * 100) \<le> c"
    unfolding c_def using a_lo k1(3) by (intro round_to_ge_int) simp_all
  have c_hi: "c \<le> of_int (D * 100 + 60)"
    unfolding c_def using a_hi k1(4) by (intro round_to_le_int) simp_all
  have "\<bar>a\<bar> \<le> 100000" using a_lo a_hi Dr by simp
  then have c_err: "\<bar>c - a\<bar> \<le> 100000 / 16777216"
    unfolding c_def by (rule round_to_24_error)
  have cb: "of_int D * 100 \<le> c" "c \<le> of_int D * 100 + 60"
    using c_lo c_hi by simp_all
  have h100: "round_to 24 100 = 100"
    using round_to_int [of 100 24] by simp
  have q_lo: "of_int D \<le> q"
    unfolding q_def using cb(1) k1(5) by (intro round_to_ge_int) simp_all
  have "\<bar>c / 100\<bar> \<le> 1000" using cb Dr by simp
  then have q_err: "\<bar>q - c / 100\<bar> \<le> 1000 / 16777216"
    unfolding q_def by (rule round_to_24_error)
  have q_hi: "q < of_int D + 1"
    using q_err cb(2) by linarith
  have q0: "0 \<le> q" using q_lo Dr by linarith
  have deg: "\<lfloor>q\<rfloor> = D" using q_lo q_hi by (intro floor_unique) simp_all
  have d100: "round_to 24 (of_int D * 100) = of_int D * 100"
    using round_to_int [of "D * 100" 24] k1(3) by simp
  have mb: "0 \<le> c - of_int D * 100" "c - of_int D * 100 \<le> 60" using cb by simp_all
  have m_lo: "0 \<le> m"
    unfolding m_def using mb(1) round_to_ge_int [of 0 "c - of_int D * 100" 24] by simp
  have m_hi: "m \<le> 60"
    unfolding m_def using mb(2) round_to_le_int [of "c - of_int D * 100" 60 24] by simp
  have "\<bar>c - of_int D * 100\<bar> \<le> 60" using mb by simp
  then have m_err: "\<bar>m - (c - of_int D * 100)\<bar> \<le> 60 / 16777216"
    unfolding m_def by (rule round_to_24_error)
  have h60: "round_to 24 60 = 60"
    using round_to_int [of 60 24] by simp
  have tb: "0 \<le> m / 60" "m / 60 \<le> 1" using m_lo m_hi by simp_all
  have t_lo: "0 \<le> t"
    unfolding t_def using tb(1) round_to_ge_int [of 0 "m / 60" 24] by simp
  have t_hi: "t \<le> 1"
    unfolding t_def using tb(2) round_to_le_int [of "m / 60" 1 24] by simp
  have "\<bar>m / 60\<bar> \<le> 1" using tb by simp
  then have t_err: "\<bar>t - m / 60\<bar> \<le> 1 / 16777216"
    unfolding t_def by (rule round_to_24_error)
  have dD: "round_to 24 (of_int D) = of_int D"
    using round_to_int [of D 24] k1(5) by simp
  have "\<bar>of_int D + t\<bar> \<le> 1000" using Dr t_lo t_hi by simp
  then have r_err: "\<bar>r - (of_int D + t)\<bar> \<le> 1000 / 16777216"
    unfolding r_def by (rule round_to_24_error)
  have conv: "GPS_ConvertCoordinate ieee_ops (Some s) (Some ''N'') = r"
    by (simp add: GPS_ConvertCoordinate_def ieee_ops_def Let_def v_def [symmetric]
        a_def [symmetric] c_def [symmetric] h100 q_def [symmetric] q0 deg d100 m_def [symmetric]
        h60 t_def [symmetric] dD r_def [symmetric])
  have ref: "decimal_degrees_ref (decimal_value s) = of_int D + (v - of_int D * 100) / 60"
    by (simp add: decimal_degrees_ref_def v_def [symmetric] D_def [symmetric])
  have "- (1 / 1000) \<le> r - (of_int D + (v - of_int D * 100) / 60)"
    using abs_le_lower [OF r_err] abs_le_lower [OF t_err] abs_le_lower [OF m_err]
      abs_le_lower [OF c_err] abs_le_lower [OF a_err]
    by (simp add: diff_divide_distrib)
  moreover have "r - (of_int D + (v - of_int D * 100) / 60) \<le> 1 / 1000"
    using abs_le_upper [OF r_err] abs_le_upper [OF t_err] abs_le_upper [OF m_err]
      abs_le_upper [OF c_err] abs_le_upper [OF a_err]
    by (simp add: diff_divide_distrib)
  ultimately have "\<bar>r - (of_int D + (v - of_int D * 100) / 60)\<bar> \<le> 1 / 1000"
    by (rule abs_leI)
  then show ?thesis by (simp only: conv ref)
qed


subsection \<open>Claim about the coordinate conversion\<close>

text \<open>
  Claim C7. For every floating point arithmetic, the result for a direction that begins with
  \<^verbatim>\<open>S\<close> or \<^verbatim>\<open>W\<close> is the negation of the result for \<^verbatim>\<open>N\<close>, and every other direction
  gives the result for \<^verbatim>\<open>N\<close>. Computed without rounding, the conversion of a coordinate
  string \<^verbatim>\<open>DDMM.MMMM\<close> or \<^verbatim>\<open>DDDMM.MMMM\<close> of value \<open>v\<close> is exactly
  \<open>\<lfloor>v / 100\<rfloor> + (v - 100 * \<lfloor>v / 100\<rfloor>) / 60\<close>, negated for \<^verbatim>\<open>S\<close> and \<^verbatim>\<open>W\<close>. Computed in
  binary32, as the program does, the result is within \<open>1 / 1000\<close> of that number whenever
  the minutes \<open>v - 100 * \<lfloor>v / 100\<rfloor>\<close> are below 60, as NMEA has them. In particular
  \<^verbatim>\<open>4807.038\<close> with \<^verbatim>\<open>N\<close> gives 48.1173 and \<^verbatim>\<open>01131.000\<close> with \<^verbatim>\<open>W\<close> gives -11.5167, both
  to within \<open>1 / 1000\<close>.
\<close>

theorem coordinate_conversion:
  "GPS_ConvertCoordinate fo (Some s) (Some dir) =
     (if dir \<noteq> [] \<and> (hd dir = CHR ''S'' \<or> hd dir = CHR ''W'')
      then fl_neg fo (GPS_ConvertCoordinate fo (Some s) (Some ''N''))
      else GPS_ConvertCoordinate fo (Some s) (Some ''N'')) \<and>
   (coord_form s \<longrightarrow>
      GPS_ConvertCoordinate exact_ops (Some s) (Some dir) =
        (if dir \<noteq> [] \<and> (hd dir = CHR ''S'' \<or> hd dir = CHR ''W'')
         then - decimal_degrees_ref (decimal_value s) else decimal_degrees_ref (decimal_value s))) \<and>
   (coord_form s \<and> minutes_ref (decimal_value s) < 60 \<longrightarrow>
      \<bar>GPS_ConvertCoordinate ieee_ops (Some s) (Some dir) -
        (if dir \<noteq> [] \<and> (hd dir = CHR ''S'' \<or> hd dir = CHR ''W'')
         then - decimal_degrees_ref (decimal_value s) else decimal_degrees_ref (decimal_value s))\<bar>
        \<le> 1 / 1000) \<and>
   \<bar>GPS_ConvertCoordinate ieee_ops (Some ''4807.038'') (Some ''N'') - 481173 / 10000\<bar> \<le> 1 / 1000 \<and>
   \<bar>GPS_ConvertCoordinate ieee_ops (Some ''01131.000'') (Some ''W'') - (- (115167 / 10000))\<bar> \<le> 1 / 1000"
proof (intro conjI impI)
  show "GPS_ConvertCoordinate fo (Some s) (Some dir) =
     (if dir \<noteq> [] \<and> (hd dir = CHR ''S'' \<or> hd dir = CHR ''W'')
      then fl_neg fo (GPS_ConvertCoordinate fo (Some s) (Some ''N''))
      else GPS_ConvertCoordinate fo (Some s) (Some ''N''))"
    by (rule convert_sign)
next
  assume "coord_form s"
  then have "0 \<le> decimal_value s" using coord_form_value by blast
  then have "GPS_ConvertCoordinate exact_ops (Some s) (Some ''N'') = decimal_degrees_ref (decimal_value s)"
    by (rule convert_exact)
  then show "GPS_ConvertCoordinate exact_ops (Some s) (Some dir) =
        (if dir \<noteq> [] \<and> (hd dir = CHR ''S'' \<or> hd dir = CHR ''W'')
         then - decimal_degrees_ref (decimal_value s) else decimal_degrees_ref (decimal_value s))"
    by (subst convert_sign) (simp add: exact_ops_def)
next
  assume a: "coord_form s \<and> minutes_ref (decimal_value s) < 60"
  then have "0 \<le> decimal_value s" "decimal_value s < 100000" using coord_form_value by blast+
  with a have b: "\<bar>GPS_ConvertCoordinate ieee_ops (Some s) (Some ''N'') -
          decimal_degrees_ref (decimal_value s)\<bar> \<le> 1 / 1000"
    by (intro convert_ieee_bound) simp_all
  have n: "\<bar>- x - - y\<bar> = \<bar>x - y\<bar>" for x y :: rat by simp
  have neg: "fl_neg ieee_ops x = - x" for x by (simp add: ieee_ops_def)
  show "\<bar>GPS_ConvertCoordinate ieee_ops (Some s) (Some dir) -
        (if dir \<noteq> [] \<and> (hd dir = CHR ''S'' \<or> hd dir = CHR ''W'')
         then - decimal_degrees_ref (decimal_value s) else decimal_degrees_ref (decimal_value s))\<bar>
        \<le> 1 / 1000"
  proof (cases "dir \<noteq> [] \<and> (hd dir = CHR ''S'' \<or> hd dir = CHR ''W'')")
    case True
    have eq: "GPS_ConvertCoordinate ieee_ops (Some s) (Some dir) =
        - GPS_ConvertCoordinate ieee_ops (Some s) (Some ''N'')"
      using convert_sign [of ieee_ops s dir] unfolding if_P [OF True] neg .
    show ?thesis unfolding if_P [OF True] eq n by (rule b)
  next
    case False
    have eq: "GPS_ConvertCoordinate ieee_ops (Some s) (Some dir) =
        GPS_ConvertCoordinate ieee_ops (Some s) (Some ''N'')"
      using convert_sign [of ieee_ops s dir] unfolding if_not_P [OF False] .
    show ?thesis unfolding if_not_P [OF False] eq by (rule b)
  qed
next
  show "\<bar>GPS_ConvertCoordinate ieee_ops (Some ''4807.038'') (Some ''N'') - 481173 / 10000\<bar> \<le> 1 / 1000"
    by code_simp
next
  show "\<bar>GPS_ConvertCoordinate ieee_ops (Some ''01131.000'') (Some ''W'') - (- (115167 / 10000))\<bar> \<le> 1 / 1000"
    by code_simp
qed

text \<open>
  The latitude \<^verbatim>\<open>4807.038\<close> and the longitude \<^verbatim>\<open>01131.000\<close>, each in both hemispheres:
  48 degrees and 7.038 minutes are 48.1173 degrees, 11 degrees and 31 minutes are
  \<open>691 / 60\<close> degrees.
\<close>

theorem coordinate_conversion_witness:
  "coord_form ''4807.038'' \<and> minutes_ref (decimal_value ''4807.038'') < 60 \<and>
   decimal_degrees_ref (decimal_value ''4807.038'') = 481173 / 10000 \<and>
   GPS_ConvertCoordinate exact_ops (Some ''4807.038'') (Some ''N'') = 481173 / 10000 \<and>
   GPS_ConvertCoordinate exact_ops (Some ''4807.038'') (Some ''S'') = - (481173 / 10000) \<and>
   \<bar>GPS_ConvertCoordinate ieee_ops (Some ''4807.038'') (Some ''S'') - (- (481173 / 10000))\<bar> \<le> 1 / 1000 \<and>
   coord_form ''01131.000'' \<and> minutes_ref (decimal_value ''01131.000'') < 60 \<and>
   decimal_degrees_ref (decimal_value ''01131.000'') = 691 / 60 \<and>
   GPS_ConvertCoordinate exact_ops (Some ''01131.000'') (Some ''W'') = - (691 / 60) \<and>
   \<bar>GPS_ConvertCoordinate ieee_ops (Some ''01131.000'') (Some ''E'') - 691 / 60\<bar> \<le> 1 / 1000"
proof -
  have f1: "coord_form ''4807.038''" by code_simp
  have m1: "minutes_ref (decimal_value ''4807.038'') < 60" by code_simp
  have d1: "decimal_degrees_ref (decimal_value ''4807.038'') = 481173 / 10000" by code_simp
  have f2: "coord_form ''01131.000''" by code_simp
  have m2: "minutes_ref (decimal_value ''01131.000'') < 60" by code_simp
  have d2: "decimal_degrees_ref (decimal_value ''01131.000'') = 691 / 60" by code_simp
  note n = coordinate_conversion [where s = "''4807.038''" and dir = "''N''" and fo = exact_ops]
  note s = coordinate_conversion [where s = "''4807.038''" and dir = "''S''" and fo = exact_ops]
  note w = coordinate_conversion [where s = "''01131.000''" and dir = "''W''" and fo = exact_ops]
  note e = coordinate_conversion [where s = "''01131.000''" and dir = "''E''" and fo = exact_ops]
  have r1: "GPS_ConvertCoordinate exact_ops (Some ''4807.038'') (Some ''N'') = 481173 / 10000"
    using n f1 d1 by simp
  have r2: "GPS_ConvertCoordinate exact_ops (Some ''4807.038'') (Some ''S'') = - (481173 / 10000)"
    using s f1 d1 by simp
  have r3: "\<bar>GPS_ConvertCoordinate ieee_ops (Some ''4807.038'') (Some ''S'') - (- (481173 / 10000))\<bar> \<le> 1 / 1000"
    using s f1 m1 d1 by simp
  have r4: "GPS_ConvertCoordinate exact_ops (Some ''01131.000'') (Some ''W'') = - (691 / 60)"
    using w f2 d2 by simp
  have r5: "\<bar>GPS_ConvertCoordinate ieee_ops (Some ''01131.000'') (Some ''E'') - 691 / 60\<bar> \<le> 1 / 1000"
    using e f2 m2 d2 by simp
  from f1 m1 d1 r1 r2 r3 f2 m2 d2 r4 r5 show ?thesis by blast
qed

text \<open>The two results of the claim as binary32 computes them.\<close>

lemma binary32_examples:
  "GPS_ConvertCoordinate ieee_ops (Some ''4807.038'') (Some ''N'') = 6306831 / 131072 \<and>
   GPS_ConvertCoordinate ieee_ops (Some ''01131.000'') (Some ''W'') = - (3019025 / 262144)"
  by code_simp

text \<open>
  The bound on the rounding error needs the minutes below 60. With 99.9999 minutes, which
  is not a coordinate, the conversion to \<^verbatim>\<open>float\<close> rounds 4799.9999 to 4800, and the
  program takes 48 degrees and 0 minutes.
\<close>

lemma minutes_out_of_range_example:
  "coord_form ''4799.9999'' \<and> minutes_ref (decimal_value ''4799.9999'') = 999999 / 10000 \<and>
   decimal_degrees_ref (decimal_value ''4799.9999'') = 47 + 999999 / 600000 \<and>
   GPS_ConvertCoordinate exact_ops (Some ''4799.9999'') (Some ''N'') = 47 + 999999 / 600000 \<and>
   GPS_ConvertCoordinate ieee_ops (Some ''4799.9999'') (Some ''N'') = 48"
  by code_simp

section \<open>Proofs: power state machine\<close>

lemma Power_Init_clock:
  "clock_never_read fo (snd (Power_Init fo (power_static_init fo)))"
  by (simp add: clock_never_read_def Power_Init_def power_static_init_def Let_def)

lemma Power_ApplyPeripheralStates_fields:
  "power_initialized (Power_ApplyPeripheralStates drv st s) = power_initialized s"
  "mode_entry_time (Power_ApplyPeripheralStates drv st s) = mode_entry_time s"
  "last_energy_update_time (Power_ApplyPeripheralStates drv st s) = last_energy_update_time s"
  "time_active_ms (Power_ApplyPeripheralStates drv st s) = time_active_ms s"
  "time_idle_ms (Power_ApplyPeripheralStates drv st s) = time_idle_ms s"
  "time_sleep_ms (Power_ApplyPeripheralStates drv st s) = time_sleep_ms s"
  "cumulative_energy_mah (Power_ApplyPeripheralStates drv st s) = cumulative_energy_mah s"
  "current_mode (Power_ApplyPeripheralStates drv st s) = current_mode s"
  by (cases st; simp add: Power_ApplyPeripheralStates_def Power_SetPeripheralState_def Let_def)+

lemma Power_SetMode_clock:
  assumes "clock_never_read fo s"
  shows "clock_never_read fo (snd (Power_SetMode fo drv m s))"
proof (cases "m = current_mode s")
  case True
  with assms show ?thesis by (simp add: Power_SetMode_def clock_never_read_def)
next
  case False
  from assms have upd: "Power_UpdateEnergyConsumption fo s = s"
    by (simp add: Power_UpdateEnergyConsumption_def clock_never_read_def)
  have s1: "(case current_mode s of
        POWER_MODE_ACTIVE \<Rightarrow> s\<lparr>time_active_ms := time_active_ms s + (0 - mode_entry_time s)\<rparr>
      | POWER_MODE_IDLE \<Rightarrow> s\<lparr>time_idle_ms := time_idle_ms s + (0 - mode_entry_time s)\<rparr>
      | POWER_MODE_DEEP_SLEEP \<Rightarrow> s\<lparr>time_sleep_ms := time_sleep_ms s + (0 - mode_entry_time s)\<rparr>) = s"
    using assms by (cases "current_mode s") (simp_all add: clock_never_read_def)
  have wk: "Power_ConfigureWakeSources m x = x" for x :: "'a power_manager"
    by (cases m) (simp_all add: Power_ConfigureWakeSources_def)
  show ?thesis
    using assms False
    unfolding Power_SetMode_def Let_def s1 upd wk clock_never_read_def
    by (simp add: Power_ApplyPeripheralStates_fields)
qed

lemma set_modes_clock:
  "clock_never_read fo s \<Longrightarrow> clock_never_read fo (set_modes fo drv ms s)"
  by (induction ms arbitrary: s) (simp_all add: Power_SetMode_clock)


subsection \<open>Claims about the power state machine\<close>

text \<open>
  Claim C2 does not hold of the code. \<^verbatim>\<open>Power_SetMode\<close> does settle the dwell time and the
  energy of the mode it leaves before it changes \<^verbatim>\<open>current_mode\<close>, but it reads the clock as
  the constant 0 (\<^verbatim>\<open>// TODO: Get current system time\<close>), as \<^verbatim>\<open>Power_Init\<close> does. So
  after \<^verbatim>\<open>Power_Init\<close> every elapsed time is 0: whatever the sequence of mode changes and
  however long the system stays in a mode, the three dwell counters stay 0, the statistics
  report 0 ms for every mode and the cumulative energy stays 0.0; in particular after
  ACTIVE, DEEP\_SLEEP, ACTIVE nothing is attributed to DEEP\_SLEEP.
\<close>

theorem set_mode_dwell_and_energy_stay_zero:
  "time_active_ms (set_modes fo drv ms (snd (Power_Init fo (power_static_init fo)))) = 0 \<and>
   time_idle_ms (set_modes fo drv ms (snd (Power_Init fo (power_static_init fo)))) = 0 \<and>
   time_sleep_ms (set_modes fo drv ms (snd (Power_Init fo (power_static_init fo)))) = 0 \<and>
   cumulative_energy_mah (set_modes fo drv ms (snd (Power_Init fo (power_static_init fo)))) = fl_lit fo 0 1 \<and>
   Power_GetStatistics True (set_modes fo drv ms (snd (Power_Init fo (power_static_init fo)))) =
     (STATUS_OK, Some (0, 0, 0)) \<and>
   fst (Power_GetEnergyConsumption fo
         (set_modes fo drv [POWER_MODE_DEEP_SLEEP, POWER_MODE_ACTIVE]
            (snd (Power_Init fo (power_static_init fo))))) = fl_lit fo 0 1"
proof -
  have c: "clock_never_read fo (set_modes fo drv ms (snd (Power_Init fo (power_static_init fo))))" for ms
    by (rule set_modes_clock) (rule Power_Init_clock)
  have st: "Power_GetStatistics True s = (STATUS_OK, Some (0, 0, 0))"
    if "clock_never_read fo s" for s :: "'a power_manager"
    using that
    by (cases "current_mode s")
      (simp_all add: Power_GetStatistics_def Power_GetTimeInMode_def clock_never_read_def)
  have en: "fst (Power_GetEnergyConsumption fo s) = fl_lit fo 0 1"
    if "clock_never_read fo s" for s :: "'a power_manager"
    using that
    by (simp add: Power_GetEnergyConsumption_def Power_UpdateEnergyConsumption_def clock_never_read_def)
  from c [of ms] st [OF c [of ms]] en [OF c [of "[POWER_MODE_DEEP_SLEEP, POWER_MODE_ACTIVE]"]]
  show ?thesis by (simp add: clock_never_read_def)
qed


text \<open>
  Claim C10. \<^verbatim>\<open>Power_SetMode\<close> with the mode the initialized power manager is already in
  returns \<^verbatim>\<open>STATUS_OK\<close> and leaves the whole state as it was: dwell counters, energy,
  previous and current mode, the mode-entry timestamp, and the list of driver calls (no
  peripheral collaborator is invoked).
\<close>

theorem set_mode_same_mode_noop:
  assumes "power_initialized s" and "mode = current_mode s"
  shows "Power_SetMode fo drv mode s = (STATUS_OK, s)"
  using assms by (simp add: Power_SetMode_def)

text \<open>The power manager after \<^verbatim>\<open>Power_Init\<close> and a change to IDLE, asked for IDLE again.\<close>

theorem set_mode_same_mode_noop_witness:
  "power_initialized
     (snd (Power_SetMode exact_ops all_drivers_ok POWER_MODE_IDLE
        (snd (Power_Init exact_ops (power_static_init exact_ops))))) \<and>
   POWER_MODE_IDLE = current_mode
     (snd (Power_SetMode exact_ops all_drivers_ok POWER_MODE_IDLE
        (snd (Power_Init exact_ops (power_static_init exact_ops))))) \<and>
   Power_SetMode exact_ops all_drivers_ok POWER_MODE_IDLE
     (snd (Power_SetMode exact_ops all_drivers_ok POWER_MODE_IDLE
        (snd (Power_Init exact_ops (power_static_init exact_ops))))) =
   (STATUS_OK,
    snd (Power_SetMode exact_ops all_drivers_ok POWER_MODE_IDLE
        (snd (Power_Init exact_ops (power_static_init exact_ops)))))"
proof -
  let ?S = "snd (Power_SetMode exact_ops all_drivers_ok POWER_MODE_IDLE
        (snd (Power_Init exact_ops (power_static_init exact_ops))))"
  have h1: "power_initialized ?S"
    by (simp add: Power_SetMode_def Power_Init_def power_static_init_def Let_def
        Power_UpdateEnergyConsumption_def Power_ApplyPeripheralStates_def
        Power_SetPeripheralState_def Power_ConfigureWakeSources_def)
  have h2: "POWER_MODE_IDLE = current_mode ?S"
    by (simp add: Power_SetMode_def Power_Init_def power_static_init_def Let_def
        Power_UpdateEnergyConsumption_def Power_ApplyPeripheralStates_def
        Power_SetPeripheralState_def Power_ConfigureWakeSources_def)
  from set_mode_same_mode_noop [OF h1 h2] h1 h2 show ?thesis by blast
qed


subsection \<open>What a mode change does\<close>

text \<open>
  The transition itself, for an initialized power manager in mode A asked for another mode
  B: \<^verbatim>\<open>Power_SetMode\<close> returns \<^verbatim>\<open>STATUS_OK\<close>; A's dwell counter grows by the elapsed time as
  the code computes it (0 minus the mode-entry timestamp, in 32 bits); energy at A's rate is
  added for the time since the last energy update when that time is not 0;
  \<^verbatim>\<open>CAN_SetPowerState\<close> and \<^verbatim>\<open>GPS_SetPowerState\<close> are called, in this order, with B's
  configuration; and only then \<open>previous_mode\<close> becomes A, \<open>current_mode\<close> B and the
  mode-entry timestamp 0.
\<close>

theorem set_mode_transition:
  assumes ini: "power_initialized s" and ne: "mode \<noteq> current_mode s"
  shows "\<exists>s'. Power_SetMode fo drv mode s = (STATUS_OK, s') \<and>
     previous_mode s' = current_mode s \<and> current_mode s' = mode \<and> mode_entry_time s' = 0 \<and>
     time_active_ms s' =
       (if current_mode s = POWER_MODE_ACTIVE then time_active_ms s + (0 - mode_entry_time s)
        else time_active_ms s) \<and>
     time_idle_ms s' =
       (if current_mode s = POWER_MODE_IDLE then time_idle_ms s + (0 - mode_entry_time s)
        else time_idle_ms s) \<and>
     time_sleep_ms s' =
       (if current_mode s = POWER_MODE_DEEP_SLEEP then time_sleep_ms s + (0 - mode_entry_time s)
        else time_sleep_ms s) \<and>
     cumulative_energy_mah s' =
       (if last_energy_update_time s = 0 then cumulative_energy_mah s
        else fl_add fo (cumulative_energy_mah s)
               (fl_div fo
                  (fl_mul fo (Power_GetCurrentConsumption fo s)
                     (fl_of_u32 fo (0 - last_energy_update_time s)))
                  (fl_lit fo 36000000 1))) \<and>
     last_energy_update_time s' = 0 \<and>
     driver_calls s' =
       driver_calls s @ [(COMPONENT_CAN, can_enabled (peripheral_configs s mode)),
                         (COMPONENT_GPS, gps_enabled (peripheral_configs s mode))]"
proof -
  have wk: "Power_ConfigureWakeSources m x = x" for x :: "'a power_manager" and m
    by (cases m) (simp_all add: Power_ConfigureWakeSources_def)
  show ?thesis
    using ini ne
    by (cases "current_mode s")
      (simp_all add: Power_SetMode_def Let_def wk Power_UpdateEnergyConsumption_def
        Power_GetCurrentConsumption_def Power_ApplyPeripheralStates_def
        Power_SetPeripheralState_def)
qed


text \<open>From ACTIVE after \<^verbatim>\<open>Power_Init\<close> to DEEP\_SLEEP.\<close>

theorem set_mode_transition_witness:
  "power_initialized (snd (Power_Init exact_ops (power_static_init exact_ops))) \<and>
   POWER_MODE_DEEP_SLEEP \<noteq> current_mode (snd (Power_Init exact_ops (power_static_init exact_ops))) \<and>
   (\<exists>s'. Power_SetMode exact_ops all_drivers_ok POWER_MODE_DEEP_SLEEP
           (snd (Power_Init exact_ops (power_static_init exact_ops))) = (STATUS_OK, s') \<and>
         previous_mode s' = POWER_MODE_ACTIVE \<and> current_mode s' = POWER_MODE_DEEP_SLEEP \<and>
         time_active_ms s' = 0 \<and> cumulative_energy_mah s' = 0 \<and>
         driver_calls s' = [(COMPONENT_CAN, False), (COMPONENT_GPS, False)])"
proof -
  let ?S = "snd (Power_Init exact_ops (power_static_init exact_ops))"
  have h1: "power_initialized ?S"
    by (simp add: Power_Init_def power_static_init_def Let_def)
  have h2: "POWER_MODE_DEEP_SLEEP \<noteq> current_mode ?S"
    by (simp add: Power_Init_def power_static_init_def Let_def)
  have v: "current_mode ?S = POWER_MODE_ACTIVE" "time_active_ms ?S = 0" "mode_entry_time ?S = 0"
    "last_energy_update_time ?S = 0" "cumulative_energy_mah ?S = 0" "driver_calls ?S = []"
    "peripheral_configs ?S = default_peripheral_configs"
    by (simp_all add: Power_Init_def power_static_init_def Let_def exact_ops_def)
  from set_mode_transition [OF h1 h2, of exact_ops all_drivers_ok]
  show ?thesis using h1 h2 unfolding v by (auto simp: default_peripheral_configs_def)
qed

end
